theory Spec2Isabelle
  imports Main
begin

section \<open>JavaScript values\<close>

text \<open>
  The values the view tree handles: templates, directories, content types and view data.
  The module only tests them for truthiness, for \<^verbatim>\<open>typeof x === "string"\<close> and uses them as
  property keys.
\<close>

datatype jsval = JUndefined | JNull | JStr string

fun truthy :: "jsval \<Rightarrow> bool" where
  "truthy JUndefined = False"
| "truthy JNull = False"
| "truthy (JStr s) = (s \<noteq> [])"

fun is_string :: "jsval \<Rightarrow> bool" where
  "is_string (JStr s) = True"
| "is_string v = False"

text \<open>Conversion to a property key, as \<^verbatim>\<open>_renderers[content_type]\<close> does.\<close>

fun to_key :: "jsval \<Rightarrow> string" where
  "to_key JUndefined = ''undefined''"
| "to_key JNull = ''null''"
| "to_key (JStr s) = s"

section \<open>The object store\<close>

datatype render_state =
    RENDER_NOT_CALLED
  | RENDER_REQUESTED
  | RENDER_STARTED
  | RENDER_COMPLETE
  | RENDER_FAILED
  | RENDER_CANCELED

datatype error =
    UnsupportedContentType jsval
  | NoErrorHandler
  | TypeError

text \<open>
  \<^verbatim>\<open>response\<close> of a view: \<^verbatim>\<open>null\<close>, the fake response object that \<^verbatim>\<open>child\<close> builds
  (named by the view it was built for), or a real response of the server.
\<close>

datatype response = NoResponse | ChildAdapter nat | RealResponse nat

text \<open>\<^verbatim>\<open>_error\<close> of a view: \<^verbatim>\<open>bifocals_defaultError\<close>, or a function of the caller.\<close>

datatype handler = DefaultError | ErrorFn nat

text \<open>
  A \<^verbatim>\<open>Bifocals\<close> object. Objects are held by reference (a child keeps its parent, the
  parent its children, and callers keep children that the parent has dropped), so the
  fields that hold views hold addresses of the store. \<^verbatim>\<open>_child_views\<close> is a plain object
  used as a mapping: \<^verbatim>\<open>child_views\<close> are its own properties, in insertion order, which is
  the order of \<^verbatim>\<open>for (key in ...)\<close> for keys that are not array indices (those would come
  first; no result below depends on the order). The key \<^verbatim>\<open>__proto__\<close> is no property: a
  view assigned under it becomes the prototype of the mapping, and \<^verbatim>\<open>child_proto\<close> is
  that view (\<open>None\<close> while the prototype is \<^verbatim>\<open>Object.prototype\<close>). \<^verbatim>\<open>data\<close> are the own
  properties of \<^verbatim>\<open>_data\<close>. A store is total: an address that was never allocated holds
  some view, and \<^verbatim>\<open>child\<close> overwrites it when it allocates the address.
\<close>

record view =
  child_views :: "(string \<times> nat) list"
  child_proto :: "nat option"
  data :: "string \<rightharpoonup> jsval"
  render_state :: render_state
  parent :: "nat option"
  root :: nat
  content_type :: jsval
  template :: jsval
  dir :: jsval
  response :: response
  error_handler :: handler

text \<open>The fake response of a child: its buffer, and the \<^verbatim>\<open>key\<close> its closures captured.\<close>

record adapter =
  buffer :: string
  akey :: string
  props :: "(string \<times> nat) list"

text \<open>What a real response receives: a property assigned, a header set, \<^verbatim>\<open>end()\<close>.\<close>

datatype sink_event = AssignProp string nat | SetHeader string string | SinkEnd

text \<open>
  A call of \<^verbatim>\<open>render\<close> on a renderer that \<^verbatim>\<open>buildRenderer\<close> returned. The renderers are
  the caller's; the call is recorded with the view whose data and callbacks the renderer
  holds, the response it writes to and the two operands of \<^verbatim>\<open>this.dir + template\<close>.
\<close>

record invocation =
  inv_view :: nat
  inv_response :: response
  inv_dir :: jsval
  inv_template :: jsval

text \<open>
  What \<^verbatim>\<open>_renderers[content_type]\<close> holds: nothing (or something falsy); something
  truthy that is no renderer class, so that \<^verbatim>\<open>new\<close> on it, or \<^verbatim>\<open>error\<close> on what \<^verbatim>\<open>new\<close>
  returns, throws a \<^verbatim>\<open>TypeError\<close> (the registry is a plain object, and
  \<^verbatim>\<open>_renderers['constructor']\<close> or \<^verbatim>\<open>_renderers['toString']\<close> is such a thing in a registry
  that nothing was added to); or a class that inherits from \<^verbatim>\<open>Renderer\<close>. The renderers
  are the caller's. What matters of a class here is what its constructor signals before
  a handler can be registered: the error it passes to \<^verbatim>\<open>this._error\<close>, if it does, and
  whether it calls \<^verbatim>\<open>this._end\<close>.
\<close>

datatype lookup = Absent | NotRenderer | RendererClass "jsval option" bool

fun is_class :: "lookup \<Rightarrow> bool" where
  "is_class (RendererClass perr pend) = True"
| "is_class l = False"

text \<open>
  Everything the module can reach: the views and the fake responses (both by address;
  \<^verbatim>\<open>next_id\<close> is the next free address), the registry \<^verbatim>\<open>_renderers\<close> (by what it holds at
  each key, inherited names included), the names of the enumerable properties that
  \<^verbatim>\<open>EventEmitter.call(this)\<close> leaves on a new object and of those of
  \<^verbatim>\<open>EventEmitter.prototype\<close> (both are the platform's), the closures
  \<^verbatim>\<open>function () { new_view.parent.render(); }\<close> given to \<^verbatim>\<open>process.nextTick\<close> and not yet run
  (oldest first; the entry \<open>c\<close> is the closure of child \<open>c\<close>), the callbacks of views that a
  registration on a renderer gave to \<^verbatim>\<open>process.nextTick\<close> (the view, and the error for an
  error callback), the calls of renderers, the calls of the callers' error handlers and
  what the real responses received.
\<close>

record world =
  views :: "nat \<Rightarrow> view"
  adapters :: "nat \<Rightarrow> adapter"
  next_id :: nat
  renderers :: "string \<Rightarrow> lookup"
  emitter_fields :: "string list"
  emitter_methods :: "string list"
  ticks :: "nat list"
  deferred :: "(nat \<times> jsval option) list"
  rendered :: "invocation list"
  handled :: "(nat \<times> jsval) list"
  sinks :: "nat \<Rightarrow> sink_event list"

text \<open>A call either returns or throws; what it wrote before throwing stays written.\<close>

datatype outcome = Returned world | Threw error world

fun world_of :: "outcome \<Rightarrow> world" where
  "world_of (Returned w) = w"
| "world_of (Threw e w) = w"

definition upd_view :: "nat \<Rightarrow> (view \<Rightarrow> view) \<Rightarrow> world \<Rightarrow> world" where
  "upd_view v f w = w\<lparr>views := (views w)(v := f (views w v))\<rparr>"

definition set_render_state :: "nat \<Rightarrow> render_state \<Rightarrow> world \<Rightarrow> world" where
  "set_render_state v s w = upd_view v (\<lambda>x. x\<lparr>render_state := s\<rparr>) w"

definition set_template :: "nat \<Rightarrow> jsval \<Rightarrow> world \<Rightarrow> world" where
  "set_template v t w = upd_view v (\<lambda>x. x\<lparr>template := t\<rparr>) w"

text \<open>\<^verbatim>\<open>obj[key] = value\<close> on an object with ordered keys, for a key that is a property.\<close>

fun assign :: "string \<Rightarrow> 'a \<Rightarrow> (string \<times> 'a) list \<Rightarrow> (string \<times> 'a) list" where
  "assign k x [] = [(k, x)]"
| "assign k x ((k', y) # kvs) = (if k' = k then (k, x) # kvs else (k', y) # assign k x kvs)"

section \<open>The renderer registry\<close>

definition getRenderer :: "jsval \<Rightarrow> world \<Rightarrow> error + lookup" where
  "getRenderer ct w =
     (case renderers w (to_key ct) of
        Absent \<Rightarrow> Inl (UnsupportedContentType ct)
      | l \<Rightarrow> Inr l)"

section \<open>The view node\<close>

text \<open>The constructor \<^verbatim>\<open>Bifocals\<close>, with the defaults of the prototype.\<close>

definition Bifocals :: "nat \<Rightarrow> view" where
  "Bifocals this =
     \<lparr>child_views = [], child_proto = None, data = Map.empty,
      render_state = RENDER_NOT_CALLED, parent = None, root = this, content_type = JNull,
      template = JNull, dir = JNull, response = NoResponse, error_handler = DefaultError\<rparr>"

definition isRendered :: "nat \<Rightarrow> world \<Rightarrow> bool" where
  "isRendered this w = (render_state (views w this) = RENDER_COMPLETE)"

text \<open>
  \<^verbatim>\<open>set(key, value)\<close> with a string as value, which is how the fake response of a child
  calls it. \<^verbatim>\<open>_data\<close> is a plain object: under the key \<^verbatim>\<open>__proto__\<close> the assignment of a
  string does nothing.
\<close>

definition set_data :: "nat \<Rightarrow> string \<Rightarrow> string \<Rightarrow> world \<Rightarrow> world" where
  "set_data this key val w =
     (if key = ''__proto__'' then w
      else upd_view this (\<lambda>x. x\<lparr>data := (data x)(key \<mapsto> JStr val)\<rparr>) w)"

text \<open>
  The names that \<^verbatim>\<open>for (key in this._child_views)\<close> visits, with the view that
  \<^verbatim>\<open>this._child_views[key]\<close> is, or \<open>None\<close> when it is no view. The own properties come first.
  When a view is the prototype of the mapping, the loop goes on with the enumerable
  properties that the mapping inherits and that no earlier name hides: those of the view
  itself (what \<^verbatim>\<open>EventEmitter.call(this)\<close> left, then what the constructor assigned, then
  what \<^verbatim>\<open>child\<close> assigned), those of \<^verbatim>\<open>Bifocals.prototype\<close>, and those of
  \<^verbatim>\<open>EventEmitter.prototype\<close>. Of these only \<^verbatim>\<open>parent\<close> and \<^verbatim>\<open>root\<close> hold views. The list
  \<open>names\<close> are the names after \<^verbatim>\<open>root\<close> that the revision of the module gives.
\<close>

fun unseen :: "string list \<Rightarrow> string list \<Rightarrow> string list" where
  "unseen seen [] = []"
| "unseen seen (k # ks) = (if k \<in> set seen then unseen seen ks else k # unseen (k # seen) ks)"

definition inherited_value :: "world \<Rightarrow> nat \<Rightarrow> string \<Rightarrow> nat option" where
  "inherited_value w v key =
     (if key = ''parent'' then parent (views w v)
      else if key = ''root'' then Some (root (views w v))
      else None)"

definition for_in :: "string list \<Rightarrow> world \<Rightarrow> nat \<Rightarrow> (string \<times> nat option) list" where
  "for_in names w this =
     map (\<lambda>(key, c). (key, Some c)) (child_views (views w this)) @
     (case child_proto (views w this) of
        None \<Rightarrow> []
      | Some v \<Rightarrow>
          map (\<lambda>key. (key, inherited_value w v key))
            (unseen (map fst (child_views (views w this)))
               (emitter_fields w @
                [''_child_views'', ''_data'', ''render_state'', ''parent'', ''root''] @
                names @ emitter_methods w)))"

definition bifocals_names :: "string list" where
  "bifocals_names =
     [''content_type'', ''dir'', ''_error'', ''template'', ''response'',
      ''_data'', ''_child_views'', ''parent'', ''root'', ''render_state'',
      ''isRendered'', ''set'', ''get'', ''canRender'', ''render'', ''cancelRender'',
      ''buildRenderer'', ''error'', ''child'', ''setStatusCode'', ''setHeaders'',
      ''statusNotFound'', ''statusError'', ''statusCreated'', ''statusRedirect'',
      ''statusNotModified'', ''statusUnsupportedMethod'', ''statusUnauthorized'']"

text \<open>
  The loop of \<^verbatim>\<open>canRender\<close>: it returns false at the first child that is not rendered,
  and a call of \<^verbatim>\<open>isRendered\<close> on what is no view throws.
\<close>

fun children_rendered :: "(string \<times> nat option) list \<Rightarrow> world \<Rightarrow> error + bool" where
  "children_rendered [] w = Inr True"
| "children_rendered ((key, x) # kxs) w =
     (case x of
        None \<Rightarrow> Inl TypeError
      | Some c \<Rightarrow> if \<not> isRendered c w then Inr False else children_rendered kxs w)"

definition canRender :: "nat \<Rightarrow> world \<Rightarrow> error + bool" where
  "canRender this w =
     (if render_state (views w this) \<noteq> RENDER_REQUESTED then Inr False
      else children_rendered (for_in bifocals_names w this) w)"

text \<open>
  \<^verbatim>\<open>cancelRender\<close> calls itself on every child, and a call of \<^verbatim>\<open>cancelRender\<close> on what is
  no view throws. On a store where a view is its own descendant the calls never end, so
  the function takes fuel: the depth of calls it may use, \<open>None\<close> when that is not
  enough. \<^verbatim>\<open>this._child_views = {}\<close> gives the view a new mapping.
\<close>

fun for_each_child ::
  "(nat \<Rightarrow> world \<Rightarrow> outcome option) \<Rightarrow> (string \<times> nat option) list \<Rightarrow> world \<Rightarrow>
     outcome option" where
  "for_each_child f [] w = Some (Returned w)"
| "for_each_child f ((key, x) # kxs) w =
     (case x of
        None \<Rightarrow> Some (Threw TypeError w)
      | Some c \<Rightarrow>
          (case f c w of
             Some (Returned w') \<Rightarrow> for_each_child f kxs w'
           | r \<Rightarrow> r))"

definition new_child_views :: "nat \<Rightarrow> world \<Rightarrow> world" where
  "new_child_views v w = upd_view v (\<lambda>x. x\<lparr>child_views := [], child_proto := None\<rparr>) w"

fun cancelRender :: "nat \<Rightarrow> nat \<Rightarrow> world \<Rightarrow> outcome option" where
  "cancelRender 0 this w = None"
| "cancelRender (Suc n) this w =
     (let w1 = set_render_state this RENDER_CANCELED w in
      case for_each_child (cancelRender n) (for_in bifocals_names w1 this) w1 of
        Some (Returned w2) \<Rightarrow> Some (Returned (new_child_views this w2))
      | r \<Rightarrow> r)"

text \<open>
  \<^verbatim>\<open>buildRenderer\<close>: the renderer holds the view's data and response, and its two callbacks
  hold the view. \<^verbatim>\<open>error(fn)\<close> and \<^verbatim>\<open>end(fn)\<close> keep the callback when the constructor of
  the renderer has not signalled, and give it to \<^verbatim>\<open>process.nextTick\<close> when it has.
\<close>

record renderer_inst =
  r_view :: nat
  r_response :: response

definition buildRenderer :: "nat \<Rightarrow> world \<Rightarrow> error + renderer_inst \<times> world" where
  "buildRenderer this w =
     (case getRenderer (content_type (views w this)) w of
        Inl e \<Rightarrow> Inl e
      | Inr (RendererClass perr pend) \<Rightarrow>
          let w1 = (case perr of
                      None \<Rightarrow> w
                    | Some err \<Rightarrow> w\<lparr>deferred := deferred w @ [(this, Some err)]\<rparr>);
              w2 = (if pend then w1\<lparr>deferred := deferred w1 @ [(this, None)]\<rparr> else w1)
          in Inr (\<lparr>r_view = this, r_response = response (views w this)\<rparr>, w2)
      | Inr l \<Rightarrow> Inl TypeError)"

definition renderer_render :: "renderer_inst \<Rightarrow> jsval \<Rightarrow> jsval \<Rightarrow> world \<Rightarrow> world" where
  "renderer_render r d t w =
     w\<lparr>rendered := rendered w @
        [\<lparr>inv_view = r_view r, inv_response = r_response r, inv_dir = d, inv_template = t\<rparr>]\<rparr>"

text \<open>The two callbacks that \<^verbatim>\<open>buildRenderer\<close> gives to the renderer.\<close>

definition call_error_handler :: "nat \<Rightarrow> jsval \<Rightarrow> world \<Rightarrow> outcome" where
  "call_error_handler this err w =
     (case error_handler (views w this) of
        DefaultError \<Rightarrow> Threw NoErrorHandler w
      | ErrorFn f \<Rightarrow> Returned (w\<lparr>handled := handled w @ [(f, err)]\<rparr>))"

definition renderer_error_callback :: "nat \<Rightarrow> jsval \<Rightarrow> world \<Rightarrow> outcome" where
  "renderer_error_callback self err w =
     call_error_handler self err (set_render_state self RENDER_FAILED w)"

definition renderer_end_callback :: "nat \<Rightarrow> world \<Rightarrow> world" where
  "renderer_end_callback self w = set_render_state self RENDER_COMPLETE w"

text \<open>
  \<^verbatim>\<open>render(template, force)\<close>. The fuel is that of \<^verbatim>\<open>cancelRender\<close>; the call without
  \<^verbatim>\<open>force\<close> uses none.
\<close>

function render :: "nat \<Rightarrow> nat \<Rightarrow> jsval \<Rightarrow> bool \<Rightarrow> world \<Rightarrow> outcome option" where
  "render n this tmpl False w =
     (if render_state (views w this) = RENDER_CANCELED then Some (Returned w)
      else
        let w1 = set_render_state this RENDER_REQUESTED w in
        case canRender this w1 of
          Inl e \<Rightarrow> Some (Threw e w1)
        | Inr True \<Rightarrow>
            let w2 = set_render_state this RENDER_STARTED w1;
                tmpl' = (if truthy (template (views w2 this)) then template (views w2 this)
                         else tmpl)
            in (case buildRenderer this w2 of
                  Inl e \<Rightarrow> Some (Threw e w2)
                | Inr (r, w3) \<Rightarrow>
                    Some (Returned (renderer_render r (dir (views w3 this)) tmpl' w3)))
        | Inr False \<Rightarrow>
            if \<not> truthy (template (views w1 this)) then
              Some (Returned (set_template this tmpl w1))
            else Some (Returned w1))"
| "render n this tmpl True w =
     (case cancelRender n this w of
        Some (Returned w1) \<Rightarrow>
          render n this tmpl False
            (set_template this tmpl (set_render_state this RENDER_REQUESTED w1))
      | r \<Rightarrow> r)"
  by pat_completeness auto
termination
  by (relation "measure (\<lambda>(n, this, tmpl, force, w). if force then 1 else 0)") auto

definition set_error :: "nat \<Rightarrow> handler \<Rightarrow> world \<Rightarrow> world" where
  "set_error this fn w = upd_view this (\<lambda>x. x\<lparr>error_handler := fn\<rparr>) w"

text \<open>
  \<^verbatim>\<open>child(key, template)\<close>: the new view and its fake response take the next free
  address, which is returned with the new store. \<^verbatim>\<open>this._child_views[key] = new_view\<close>
  with the key \<^verbatim>\<open>__proto__\<close> makes the new view the prototype of the mapping and adds no
  property; what the function returns, \<^verbatim>\<open>this._child_views[key]\<close>, is the new view with
  every key.
\<close>

definition child :: "nat \<Rightarrow> string \<Rightarrow> jsval \<Rightarrow> world \<Rightarrow> nat \<times> world" where
  "child this key tmpl w =
     (let new_view = next_id w;
          w1 = w\<lparr>views := (views w)(new_view := Bifocals new_view), next_id := Suc new_view\<rparr>;
          w2 = upd_view new_view (\<lambda>x. x\<lparr>content_type := content_type (views w1 this)\<rparr>) w1;
          w3 = upd_view new_view (\<lambda>x. x\<lparr>parent := Some this\<rparr>) w2;
          w4 = upd_view new_view (\<lambda>x. x\<lparr>root := root (views w3 this)\<rparr>) w3;
          w5 = upd_view new_view (\<lambda>x. x\<lparr>dir := dir (views w4 this)\<rparr>) w4;
          w6 = set_error new_view (error_handler (views w5 this)) w5;
          w7 = (if truthy tmpl then set_template new_view tmpl w6 else w6);
          w8 = (upd_view new_view (\<lambda>x. x\<lparr>response := ChildAdapter new_view\<rparr>) w7)
                 \<lparr>adapters := (adapters w7)
                    (new_view := \<lparr>buffer = [], akey = key, props = []\<rparr>)\<rparr>;
          w9 = (if key = ''__proto__'' then
                  upd_view this (\<lambda>x. x\<lparr>child_proto := Some new_view\<rparr>) w8
                else
                  upd_view this
                    (\<lambda>x. x\<lparr>child_views := assign key new_view (child_views x)\<rparr>) w8)
      in (new_view, w9))"

section \<open>The child output adapter\<close>

definition adapter_write :: "nat \<Rightarrow> string \<Rightarrow> world \<Rightarrow> world" where
  "adapter_write a chunk w =
     w\<lparr>adapters := (adapters w)(a := (adapters w a)\<lparr>buffer := buffer (adapters w a) @ chunk\<rparr>)\<rparr>"

text \<open>
  \<^verbatim>\<open>end\<close> of the fake response of \<open>new_view\<close>. \<^verbatim>\<open>new_view.parent\<close> is read when it runs,
  and a call on \<^verbatim>\<open>null\<close> throws.
\<close>

definition adapter_end :: "nat \<Rightarrow> world \<Rightarrow> outcome" where
  "adapter_end new_view w =
     (let w1 = set_render_state new_view RENDER_COMPLETE w in
      case parent (views w1 new_view) of
        None \<Rightarrow> Threw TypeError w1
      | Some p \<Rightarrow>
          let w2 = set_data p (akey (adapters w1 new_view)) (buffer (adapters w1 new_view)) w1
          in (case canRender p w2 of
                Inl e \<Rightarrow> Threw e w2
              | Inr True \<Rightarrow> Returned (w2\<lparr>ticks := ticks w2 @ [new_view]\<rparr>)
              | Inr False \<Rightarrow> Returned w2))"

text \<open>The scheduler runs the oldest closure of a fake response.\<close>

definition run_tick :: "world \<Rightarrow> outcome option" where
  "run_tick w =
     (case ticks w of
        [] \<Rightarrow> Some (Returned w)
      | new_view # rest \<Rightarrow>
          (case parent (views w new_view) of
             None \<Rightarrow> Some (Threw TypeError (w\<lparr>ticks := rest\<rparr>))
           | Some p \<Rightarrow> render 0 p JUndefined False (w\<lparr>ticks := rest\<rparr>)))"

section \<open>Status helpers\<close>

text \<open>\<^verbatim>\<open>response.name = value\<close> and \<^verbatim>\<open>response.end()\<close>, on whatever the root holds.\<close>

definition assign_prop :: "response \<Rightarrow> string \<Rightarrow> nat \<Rightarrow> world \<Rightarrow> outcome" where
  "assign_prop r name val w =
     (case r of
        NoResponse \<Rightarrow> Threw TypeError w
      | ChildAdapter a \<Rightarrow>
          Returned (w\<lparr>adapters := (adapters w)
            (a := (adapters w a)\<lparr>props := assign name val (props (adapters w a))\<rparr>)\<rparr>)
      | RealResponse s \<Rightarrow>
          Returned (w\<lparr>sinks := (sinks w)(s := sinks w s @ [AssignProp name val])\<rparr>))"

definition response_end :: "response \<Rightarrow> world \<Rightarrow> outcome" where
  "response_end r w =
     (case r of
        NoResponse \<Rightarrow> Threw TypeError w
      | ChildAdapter a \<Rightarrow> adapter_end a w
      | RealResponse s \<Rightarrow> Returned (w\<lparr>sinks := (sinks w)(s := sinks w s @ [SinkEnd])\<rparr>))"

definition setStatusCode :: "nat \<Rightarrow> nat \<Rightarrow> world \<Rightarrow> outcome" where
  "setStatusCode this code w =
     assign_prop (response (views w (root (views w this)))) ''statusCode'' code w"

definition statusNotFound :: "nat \<Rightarrow> nat \<Rightarrow> jsval \<Rightarrow> world \<Rightarrow> outcome option" where
  "statusNotFound n this tmpl w =
     (case setStatusCode this 404 w of
        Threw e w' \<Rightarrow> Some (Threw e w')
      | Returned w1 \<Rightarrow>
          (case cancelRender n (root (views w1 this)) w1 of
             Some (Returned w2) \<Rightarrow>
               if \<not> is_string tmpl then
                 (case cancelRender n (root (views w2 this)) w2 of
                    Some (Returned w3) \<Rightarrow>
                      Some (response_end (response (views w3 (root (views w3 this)))) w3)
                  | r \<Rightarrow> r)
               else render n (root (views w2 this)) tmpl True w2
           | r \<Rightarrow> r))"

section \<open>The second revision of the module\<close>

text \<open>
  The repository holds an earlier revision of the same module. It keeps the template,
  the response and the content type behind setters; the functions below are that
  revision's, on the same store.
\<close>

definition setResponse :: "nat \<Rightarrow> response \<Rightarrow> world \<Rightarrow> world" where
  "setResponse this r w =
     (let w1 = (case r of
                  RealResponse s \<Rightarrow>
                    w\<lparr>sinks := (sinks w)
                      (s := sinks w s @
                         [SetHeader ''Content-Type'' ''text/plain'', AssignProp ''status_code'' 200])\<rparr>
                | _ \<Rightarrow> w)
      in upd_view this (\<lambda>x. x\<lparr>response := r\<rparr>) w1)"

definition setContentType :: "nat \<Rightarrow> jsval \<Rightarrow> world \<Rightarrow> world" where
  "setContentType this ct w = upd_view this (\<lambda>x. x\<lparr>content_type := ct\<rparr>) w"

definition setTemplate :: "nat \<Rightarrow> jsval \<Rightarrow> world \<Rightarrow> world" where
  "setTemplate this t w = upd_view this (\<lambda>x. x\<lparr>template := t\<rparr>) w"

definition view_names :: "string list" where
  "view_names =
     [''_content_type'', ''dir'', ''_error'', ''_template'', ''_response'',
      ''_data'', ''_child_views'', ''parent'', ''root'',
      ''setResponse'', ''setContentType'', ''setTemplate'', ''isRendered'', ''set'',
      ''setToRoot'', ''get'', ''fill'', ''canRender'', ''render'', ''cancelRender'',
      ''buildRenderer'', ''error'', ''child'', ''setStatusCode'', ''setHeader'',
      ''statusNotFound'', ''statusError'', ''statusCreated'', ''statusRedirect'',
      ''statusNotModified'', ''statusUnsupportedMethod'']"

fun cancelRender_rev1 :: "nat \<Rightarrow> nat \<Rightarrow> world \<Rightarrow> outcome option" where
  "cancelRender_rev1 0 this w = None"
| "cancelRender_rev1 (Suc n) this w =
     (let w1 = set_render_state this RENDER_CANCELED w in
      case for_each_child (cancelRender_rev1 n) (for_in view_names w1 this) w1 of
        Some (Returned w2) \<Rightarrow> Some (Returned (new_child_views this w2))
      | r \<Rightarrow> r)"

definition view_child :: "nat \<Rightarrow> string \<Rightarrow> jsval \<Rightarrow> world \<Rightarrow> nat \<times> world" where
  "view_child this key tmpl w =
     (let new_view = next_id w;
          w1 = w\<lparr>views := (views w)(new_view := Bifocals new_view), next_id := Suc new_view\<rparr>;
          w2 = setContentType new_view (content_type (views w1 this)) w1;
          w3 = upd_view new_view (\<lambda>x. x\<lparr>parent := Some this\<rparr>) w2;
          w4 = upd_view new_view (\<lambda>x. x\<lparr>root := root (views w3 this)\<rparr>) w3;
          w5 = upd_view new_view (\<lambda>x. x\<lparr>dir := dir (views w4 this)\<rparr>) w4;
          w6 = set_error new_view (error_handler (views w5 this)) w5;
          w7 = (if truthy tmpl then setTemplate new_view tmpl w6 else w6);
          w8 = setResponse new_view (ChildAdapter new_view)
                 (w7\<lparr>adapters := (adapters w7)
                    (new_view := \<lparr>buffer = [], akey = key, props = []\<rparr>)\<rparr>);
          w9 = (if key = ''__proto__'' then
                  upd_view this (\<lambda>x. x\<lparr>child_proto := Some new_view\<rparr>) w8
                else
                  upd_view this
                    (\<lambda>x. x\<lparr>child_views := assign key new_view (child_views x)\<rparr>) w8)
      in (new_view, w9))"

definition view_canRender :: "nat \<Rightarrow> world \<Rightarrow> error + bool" where
  "view_canRender this w =
     (if render_state (views w this) \<noteq> RENDER_REQUESTED then Inr False
      else children_rendered (for_in view_names w this) w)"

definition view_adapter_end :: "nat \<Rightarrow> world \<Rightarrow> outcome" where
  "view_adapter_end new_view w =
     (let w1 = set_render_state new_view RENDER_COMPLETE w in
      case parent (views w1 new_view) of
        None \<Rightarrow> Threw TypeError w1
      | Some p \<Rightarrow>
          let w2 = set_data p (akey (adapters w1 new_view)) (buffer (adapters w1 new_view)) w1
          in (case view_canRender p w2 of
                Inl e \<Rightarrow> Threw e w2
              | Inr True \<Rightarrow> Returned (w2\<lparr>ticks := ticks w2 @ [new_view]\<rparr>)
              | Inr False \<Rightarrow> Returned w2))"

definition view_response_end :: "response \<Rightarrow> world \<Rightarrow> outcome" where
  "view_response_end r w =
     (case r of
        NoResponse \<Rightarrow> Threw TypeError w
      | ChildAdapter a \<Rightarrow> view_adapter_end a w
      | RealResponse s \<Rightarrow> Returned (w\<lparr>sinks := (sinks w)(s := sinks w s @ [SinkEnd])\<rparr>))"

definition view_notFound :: "nat \<Rightarrow> nat \<Rightarrow> jsval \<Rightarrow> world \<Rightarrow> outcome option" where
  "view_notFound n this tmpl w =
     (case cancelRender_rev1 n (root (views w this)) w of
        Some (Returned w1) \<Rightarrow>
          (case assign_prop (response (views w1 (root (views w1 this)))) ''statusCode'' 404 w1 of
             Threw e w' \<Rightarrow> Some (Threw e w')
           | Returned w2 \<Rightarrow>
               Some (view_response_end (response (views w2 (root (views w2 this)))) w2))
      | r \<Rightarrow> r)"

section \<open>The renderer base object\<close>

text \<open>
  A \<^verbatim>\<open>Renderer\<close> with the functions it was given named by numbers. \<^verbatim>\<open>own_error\<close> and
  \<^verbatim>\<open>own_end\<close> are \<^verbatim>\<open>_error\<close> and \<^verbatim>\<open>_end\<close> once assigned (before, the prototype's
  defaults apply); \<^verbatim>\<open>pending_error\<close> and \<^verbatim>\<open>pending_end\<close> say that the default has
  replaced the method \<^verbatim>\<open>error\<close> (with the error it captured) or \<^verbatim>\<open>end\<close>. \<^verbatim>\<open>queue\<close> are
  the calls given to \<^verbatim>\<open>process.nextTick\<close>, \<^verbatim>\<open>calls\<close> the calls made.
\<close>

record renderer =
  own_error :: "nat option"
  own_end :: "nat option"
  pending_error :: "jsval option"
  pending_end :: bool
  queue :: "(nat \<times> jsval option) list"
  calls :: "(nat \<times> jsval option) list"

datatype retval = ReturnsThis | ReturnsUndefined

definition Renderer :: renderer where
  "Renderer = \<lparr>own_error = None, own_end = None, pending_error = None, pending_end = False,
               queue = [], calls = []\<rparr>"

definition renderer_defaultError :: "jsval \<Rightarrow> renderer \<Rightarrow> renderer" where
  "renderer_defaultError err r = r\<lparr>pending_error := Some err\<rparr>"

definition renderer_defaultEnd :: "renderer \<Rightarrow> renderer" where
  "renderer_defaultEnd r = r\<lparr>pending_end := True\<rparr>"

text \<open>The renderer signals: \<^verbatim>\<open>this._error(err)\<close> and \<^verbatim>\<open>this._end()\<close>.\<close>

definition signal_error :: "jsval \<Rightarrow> renderer \<Rightarrow> renderer" where
  "signal_error err r =
     (case own_error r of
        None \<Rightarrow> renderer_defaultError err r
      | Some fn \<Rightarrow> r\<lparr>calls := calls r @ [(fn, Some err)]\<rparr>)"

definition signal_end :: "renderer \<Rightarrow> renderer" where
  "signal_end r =
     (case own_end r of
        None \<Rightarrow> renderer_defaultEnd r
      | Some fn \<Rightarrow> r\<lparr>calls := calls r @ [(fn, None)]\<rparr>)"

text \<open>\<^verbatim>\<open>error(fn)\<close> and \<^verbatim>\<open>end(fn)\<close>, first revision.\<close>

definition renderer_error :: "nat \<Rightarrow> renderer \<Rightarrow> renderer \<times> retval" where
  "renderer_error fn r =
     (case pending_error r of
        None \<Rightarrow> (r\<lparr>own_error := Some fn\<rparr>, ReturnsThis)
      | Some err \<Rightarrow> (r\<lparr>queue := queue r @ [(fn, Some err)]\<rparr>, ReturnsThis))"

definition renderer_end :: "nat \<Rightarrow> renderer \<Rightarrow> renderer \<times> retval" where
  "renderer_end fn r =
     (if \<not> pending_end r then (r\<lparr>own_end := Some fn\<rparr>, ReturnsThis)
      else (r\<lparr>queue := queue r @ [(fn, None)]\<rparr>, ReturnsThis))"

text \<open>\<^verbatim>\<open>error(fn)\<close> and \<^verbatim>\<open>end(fn)\<close>, second revision.\<close>

definition renderer_error_rev1 :: "nat \<Rightarrow> renderer \<Rightarrow> renderer \<times> retval" where
  "renderer_error_rev1 fn r =
     (case pending_error r of
        None \<Rightarrow> (r\<lparr>own_error := Some fn\<rparr>, ReturnsThis)
      | Some err \<Rightarrow> (r\<lparr>calls := calls r @ [(fn, Some err)]\<rparr>, ReturnsUndefined))"

definition renderer_end_rev1 :: "nat \<Rightarrow> renderer \<Rightarrow> renderer \<times> retval" where
  "renderer_end_rev1 fn r =
     (if \<not> pending_end r then (r\<lparr>own_end := Some fn\<rparr>, ReturnsThis)
      else (r\<lparr>calls := calls r @ [(fn, None)]\<rparr>, ReturnsUndefined))"

text \<open>The scheduler runs the oldest call given to \<^verbatim>\<open>process.nextTick\<close>.\<close>

definition next_tick :: "renderer \<Rightarrow> renderer" where
  "next_tick r =
     (case queue r of
        [] \<Rightarrow> r
      | c # rest \<Rightarrow> r\<lparr>queue := rest, calls := calls r @ [c]\<rparr>)"

section \<open>Operations and schedules\<close>

text \<open>
  What can happen to a tree of views: its owner calls \<^verbatim>\<open>render\<close> or \<^verbatim>\<open>cancelRender\<close>;
  one of the two callbacks that \<^verbatim>\<open>buildRenderer\<close> registered runs, called by the renderer or
  by the scheduler when the registration gave it to \<^verbatim>\<open>process.nextTick\<close>; a renderer
  writes to and ends the fake response it was given; and the scheduler runs a pending
  closure of a fake response.
\<close>

datatype op =
    Render nat jsval bool
  | CancelRender nat
  | RendererEnd nat
  | RendererError nat jsval
  | AdapterWrite nat string
  | AdapterEnd nat
  | Tick

fun step :: "nat \<Rightarrow> op \<Rightarrow> world \<Rightarrow> outcome option" where
  "step n (Render v t force) w = render n v t force w"
| "step n (CancelRender v) w = cancelRender n v w"
| "step n (RendererEnd v) w = Some (Returned (renderer_end_callback v w))"
| "step n (RendererError v err) w = Some (renderer_error_callback v err w)"
| "step n (AdapterWrite a chunk) w = Some (Returned (adapter_write a chunk w))"
| "step n (AdapterEnd a) w = Some (adapter_end a w)"
| "step n Tick w = run_tick w"

text \<open>A run stops at the first call that throws.\<close>

fun run :: "nat \<Rightarrow> op list \<Rightarrow> world \<Rightarrow> outcome option" where
  "run n [] w = Some (Returned w)"
| "run n (e # es) w =
     (case step n e w of
        Some (Returned w') \<Rightarrow> run n es w'
      | r \<Rightarrow> r)"

text \<open>How often the renderer of view \<open>p\<close> has been called.\<close>

definition render_calls :: "nat \<Rightarrow> world \<Rightarrow> nat" where
  "render_calls p w = length (filter (\<lambda>i. inv_view i = p) (rendered w))"






section \<open>Example stores\<close>

text \<open>
  The truthy properties that a plain object inherits from \<^verbatim>\<open>Object.prototype\<close>; none is
  a renderer class.
\<close>

definition object_names :: "string list" where
  "object_names =
     [''constructor'', ''toString'', ''toLocaleString'', ''valueOf'', ''hasOwnProperty'',
      ''isPrototypeOf'', ''propertyIsEnumerable'', ''__defineGetter__'', ''__defineSetter__'',
      ''__lookupGetter__'', ''__lookupSetter__'', ''__proto__'']"

text \<open>
  A store to try things on: a renderer registered for \<^verbatim>\<open>text/html\<close> whose constructor
  signals nothing, and a root view with that content type, a directory, a real response
  and an error handler. The properties of the event emitter are those of Node 0.10.
\<close>

definition example_world :: world where
  "example_world =
     \<lparr>views = (\<lambda>v. Bifocals v)
        (0 := (Bifocals 0)\<lparr>content_type := JStr ''text/html'', dir := JStr ''templates/'',
               response := RealResponse 0, error_handler := ErrorFn 0\<rparr>),
      adapters = (\<lambda>a. \<lparr>buffer = [], akey = [], props = []\<rparr>),
      next_id = 1,
      renderers = (\<lambda>key. if key \<in> set object_names then NotRenderer else Absent)
        (''text/html'' := RendererClass None False),
      emitter_fields = [''domain'', ''_events'', ''_maxListeners''],
      emitter_methods = [''setMaxListeners'', ''emit'', ''addListener'', ''on'', ''once'',
        ''removeListener'', ''removeAllListeners'', ''listeners''],
      ticks = [], deferred = [], rendered = [], handled = [], sinks = (\<lambda>s. [])\<rparr>"

text \<open>A root with children \<^verbatim>\<open>header\<close> (view 1) and \<^verbatim>\<open>body\<close> (view 3); \<^verbatim>\<open>header\<close> has the
  child \<^verbatim>\<open>nav\<close> (view 2).\<close>

definition tree_world :: world where
  "tree_world =
     snd (child 0 ''body'' (JStr ''body.html'')
       (snd (child 1 ''nav'' JUndefined
         (snd (child 0 ''header'' (JStr ''header.html'') example_world)))))"

text \<open>The same tree, built by the second revision.\<close>

definition view_tree_world :: world where
  "view_tree_world =
     snd (view_child 0 ''body'' (JStr ''body.html'')
       (snd (view_child 1 ''nav'' JUndefined
         (snd (view_child 0 ''header'' (JStr ''header.html'') example_world)))))"

text \<open>A root whose only child (view 1) was created under the key \<^verbatim>\<open>__proto__\<close>.\<close>

definition proto_world :: world where
  "proto_world = snd (child 0 ''__proto__'' (JStr ''header.html'') example_world)"




text \<open>Two runs: on the header and on the root of the tree above.\<close>

definition header_run :: "op list" where
  "header_run =
     [Render 1 (JStr ''a'') False, Render 1 (JStr ''b'') False, AdapterEnd 2, Tick]"

definition root_run :: "op list" where
  "root_run = [Render 0 (JStr ''b'') False, AdapterEnd 1, AdapterEnd 3, Tick]"

section \<open>Notions for the proofs\<close>

text \<open>
  What calls of \<^verbatim>\<open>cancelRender\<close> do to a store, whether they return or throw: only the
  states and the mappings of views change, and a state changes to \<^verbatim>\<open>RENDER_CANCELED\<close>
  only.
\<close>

definition cancels :: "world \<Rightarrow> world \<Rightarrow> bool" where
  "cancels w w' =
     (w'\<lparr>views := views w\<rparr> = w \<and>
      (\<forall>u. (views w' u)\<lparr>render_state := render_state (views w u),
                        child_views := child_views (views w u),
                        child_proto := child_proto (views w u)\<rparr> = views w u) \<and>
      (\<forall>u. render_state (views w' u) = render_state (views w u) \<or>
           render_state (views w' u) = RENDER_CANCELED))"

text \<open>The views below \<open>v\<close>: its children, their children, and so on.\<close>

inductive_set descendants :: "world \<Rightarrow> nat \<Rightarrow> nat set" for w :: world and v :: nat where
  child: "c \<in> snd ` set (child_views (views w v)) \<Longrightarrow> c \<in> descendants w v"
| below: "u \<in> descendants w v \<Longrightarrow> c \<in> snd ` set (child_views (views w u)) \<Longrightarrow> c \<in> descendants w v"

text \<open>
  Stores that \<^verbatim>\<open>new Bifocals()\<close> and \<^verbatim>\<open>child\<close> with keys other than \<^verbatim>\<open>__proto__\<close> build:
  every mapping is a plain object, and a child was allocated after its parent, so its
  address is the larger one, and below \<^verbatim>\<open>next_id\<close>.
\<close>

definition ranked :: "world \<Rightarrow> bool" where
  "ranked w =
     (\<forall>v. child_proto (views w v) = None \<and>
          (\<forall>c \<in> snd ` set (child_views (views w v)). v < c \<and> c < next_id w))"

text \<open>A view that is cancelled and has a new, empty mapping.\<close>

definition pruned :: "world \<Rightarrow> nat \<Rightarrow> bool" where
  "pruned w u =
     (render_state (views w u) = RENDER_CANCELED \<and> child_views (views w u) = [] \<and>
      child_proto (views w u) = None)"

text \<open>
  And more of what calls of \<^verbatim>\<open>cancelRender\<close> do: a mapping changes to a new, empty one
  only, and the former children of a view that lost them are all pruned.
\<close>

definition prunes :: "world \<Rightarrow> world \<Rightarrow> bool" where
  "prunes w w' =
     (cancels w w' \<and>
      (\<forall>u. child_views (views w' u) = child_views (views w u) \<or>
           child_views (views w' u) = []) \<and>
      (\<forall>u. child_proto (views w' u) = child_proto (views w u) \<or>
           child_proto (views w' u) = None) \<and>
      (\<forall>u. child_views (views w' u) \<noteq> child_views (views w u) \<longrightarrow>
           (\<forall>c \<in> snd ` set (child_views (views w u)). pruned w' c)))"

definition all_complete :: "nat list \<Rightarrow> world \<Rightarrow> bool" where
  "all_complete cs w = (\<forall>c \<in> set cs. render_state (views w c) = RENDER_COMPLETE)"

text \<open>A view whose mapping of children is a plain object, with a renderer class for its
  content type.\<close>

definition plain :: "nat \<Rightarrow> world \<Rightarrow> bool" where
  "plain v w =
     (child_proto (views w v) = None \<and>
      is_class (renderers w (to_key (content_type (views w v)))))"



text \<open>
  From store \<open>w0\<close> to store \<open>w\<close> the template of view \<open>v\<close> is \<open>a\<close>, and every call of
  the renderer of \<open>v\<close> made since \<open>w0\<close> was made with \<open>a\<close>.
\<close>

definition keeps_template :: "nat \<Rightarrow> jsval \<Rightarrow> world \<Rightarrow> world \<Rightarrow> bool" where
  "keeps_template v a w0 w =
     (template (views w v) = a \<and>
      (\<exists>xs. rendered w = rendered w0 @ xs \<and>
         (\<forall>i \<in> set xs. inv_view i = v \<longrightarrow> inv_template i = a)))"

section \<open>Gating\<close>

lemma for_in_plain:
  "child_proto (views w this) = None \<Longrightarrow>
     for_in names w this = map (\<lambda>(key, c). (key, Some c)) (child_views (views w this))"
  by (simp add: for_in_def)

lemma children_rendered_own:
  "children_rendered (map (\<lambda>(key, c). (key, Some c)) kcs) w =
     Inr (\<forall>c \<in> snd ` set kcs. render_state (views w c) = RENDER_COMPLETE)"
  by (induction kcs) (auto simp: isRendered_def)

lemma canRender_plain:
  "child_proto (views w this) = None \<Longrightarrow>
     canRender this w =
       Inr (render_state (views w this) = RENDER_REQUESTED \<and>
            (\<forall>c \<in> snd ` set (child_views (views w this)).
                render_state (views w c) = RENDER_COMPLETE))"
  by (simp add: canRender_def for_in_plain children_rendered_own)


section \<open>Rendering a cancelled view\<close>

text \<open>
  C7. On a view whose state is \<^verbatim>\<open>RENDER_CANCELED\<close>, \<^verbatim>\<open>render(template)\<close> without
  \<^verbatim>\<open>force\<close> returns and changes nothing: the states, templates, data and children of
  all views are as before, and no renderer has been built or called.
\<close>

theorem render_cancelled_noop:
  "render_state (views w this) = RENDER_CANCELED \<Longrightarrow>
     render n this tmpl False w = Some (Returned w)"
  by simp

theorem render_cancelled_noop_witness:
  "cancelRender 1 0 example_world \<noteq> None \<and>
   render_state (views (world_of (the (cancelRender 1 0 example_world))) 0) =
     RENDER_CANCELED \<and>
   render 0 0 (JStr ''index'') False (world_of (the (cancelRender 1 0 example_world))) =
     Some (Returned (world_of (the (cancelRender 1 0 example_world))))"
proof -
  have s: "cancelRender 1 0 example_world \<noteq> None"
    by code_simp
  have h: "render_state (views (world_of (the (cancelRender 1 0 example_world))) 0) =
      RENDER_CANCELED"
    by code_simp
  show ?thesis using s h render_cancelled_noop [OF h, of 0 "JStr ''index''"] by blast
qed

section \<open>Cancelling\<close>

lemma cancels_refl: "cancels w w"
  by (simp add: cancels_def)

lemma cancels_state:
  "cancels w w' \<Longrightarrow>
     render_state (views w' u) = render_state (views w u) \<or>
     render_state (views w' u) = RENDER_CANCELED"
  unfolding cancels_def by blast

lemma cancels_fields:
  assumes "cancels w w'"
  shows "adapters w' = adapters w" and "next_id w' = next_id w"
    and "renderers w' = renderers w" and "ticks w' = ticks w"
    and "rendered w' = rendered w" and "handled w' = handled w" and "sinks w' = sinks w"
    and "deferred w' = deferred w" and "emitter_fields w' = emitter_fields w"
    and "emitter_methods w' = emitter_methods w"
proof -
  from assms have e: "w'\<lparr>views := views w\<rparr> = w" by (simp add: cancels_def)
  show "adapters w' = adapters w" by (rule arg_cong [where f = adapters, OF e, simplified])
  show "next_id w' = next_id w" by (rule arg_cong [where f = next_id, OF e, simplified])
  show "renderers w' = renderers w" by (rule arg_cong [where f = renderers, OF e, simplified])
  show "ticks w' = ticks w" by (rule arg_cong [where f = ticks, OF e, simplified])
  show "rendered w' = rendered w" by (rule arg_cong [where f = rendered, OF e, simplified])
  show "handled w' = handled w" by (rule arg_cong [where f = handled, OF e, simplified])
  show "sinks w' = sinks w" by (rule arg_cong [where f = sinks, OF e, simplified])
  show "deferred w' = deferred w" by (rule arg_cong [where f = deferred, OF e, simplified])
  show "emitter_fields w' = emitter_fields w"
    by (rule arg_cong [where f = emitter_fields, OF e, simplified])
  show "emitter_methods w' = emitter_methods w"
    by (rule arg_cong [where f = emitter_methods, OF e, simplified])
qed

lemma cancels_view_fields:
  assumes "cancels w w'"
  shows "data (views w' u) = data (views w u)" and "parent (views w' u) = parent (views w u)"
    and "root (views w' u) = root (views w u)"
    and "content_type (views w' u) = content_type (views w u)"
    and "template (views w' u) = template (views w u)" and "dir (views w' u) = dir (views w u)"
    and "response (views w' u) = response (views w u)"
    and "error_handler (views w' u) = error_handler (views w u)"
proof -
  from assms have e: "(views w' u)\<lparr>render_state := render_state (views w u),
      child_views := child_views (views w u), child_proto := child_proto (views w u)\<rparr> =
      views w u"
    by (simp add: cancels_def)
  show "data (views w' u) = data (views w u)"
    by (rule arg_cong [where f = data, OF e, simplified])
  show "parent (views w' u) = parent (views w u)"
    by (rule arg_cong [where f = parent, OF e, simplified])
  show "root (views w' u) = root (views w u)"
    by (rule arg_cong [where f = root, OF e, simplified])
  show "content_type (views w' u) = content_type (views w u)"
    by (rule arg_cong [where f = content_type, OF e, simplified])
  show "template (views w' u) = template (views w u)"
    by (rule arg_cong [where f = template, OF e, simplified])
  show "dir (views w' u) = dir (views w u)"
    by (rule arg_cong [where f = dir, OF e, simplified])
  show "response (views w' u) = response (views w u)"
    by (rule arg_cong [where f = response, OF e, simplified])
  show "error_handler (views w' u) = error_handler (views w u)"
    by (rule arg_cong [where f = error_handler, OF e, simplified])
qed

lemma cancelsI:
  assumes "w'\<lparr>views := views w\<rparr> = w"
    and "\<And>u. (views w' u)\<lparr>render_state := render_state (views w u),
                        child_views := child_views (views w u),
                        child_proto := child_proto (views w u)\<rparr> = views w u"
    and "\<And>u. render_state (views w' u) = render_state (views w u) \<or>
           render_state (views w' u) = RENDER_CANCELED"
  shows "cancels w w'"
  using assms unfolding cancels_def by blast

lemma cancels_trans:
  assumes a: "cancels w w1" and b: "cancels w1 w2"
  shows "cancels w w2"
proof (rule cancelsI)
  from a have e1: "w1\<lparr>views := views w\<rparr> = w" by (simp add: cancels_def)
  from b have e2: "w2\<lparr>views := views w1\<rparr> = w1" by (simp add: cancels_def)
  have "w2\<lparr>views := views w\<rparr> = (w2\<lparr>views := views w1\<rparr>)\<lparr>views := views w\<rparr>" by simp
  also have "\<dots> = w" by (simp only: e2 e1)
  finally show "w2\<lparr>views := views w\<rparr> = w" .
next
  fix u
  from a have e1: "(views w1 u)\<lparr>render_state := render_state (views w u),
      child_views := child_views (views w u), child_proto := child_proto (views w u)\<rparr> =
      views w u"
    by (simp add: cancels_def)
  from b have e2: "(views w2 u)\<lparr>render_state := render_state (views w1 u),
      child_views := child_views (views w1 u), child_proto := child_proto (views w1 u)\<rparr> =
      views w1 u"
    by (simp add: cancels_def)
  have "(views w2 u)\<lparr>render_state := render_state (views w u),
      child_views := child_views (views w u), child_proto := child_proto (views w u)\<rparr> =
    ((views w2 u)\<lparr>render_state := render_state (views w1 u),
      child_views := child_views (views w1 u), child_proto := child_proto (views w1 u)\<rparr>)
      \<lparr>render_state := render_state (views w u),
      child_views := child_views (views w u), child_proto := child_proto (views w u)\<rparr>"
    by simp
  also have "\<dots> = views w u" by (simp only: e2 e1)
  finally show "(views w2 u)\<lparr>render_state := render_state (views w u),
      child_views := child_views (views w u), child_proto := child_proto (views w u)\<rparr> =
      views w u" .
next
  fix u
  from cancels_state [OF a, of u] cancels_state [OF b, of u]
  show "render_state (views w2 u) = render_state (views w u) \<or>
        render_state (views w2 u) = RENDER_CANCELED"
    by auto
qed

lemma cancels_set_render_state: "cancels w (set_render_state v RENDER_CANCELED w)"
  by (rule cancelsI) (simp_all add: set_render_state_def upd_view_def)

lemma cancels_new_child_views: "cancels w (new_child_views v w)"
  by (rule cancelsI) (simp_all add: new_child_views_def upd_view_def)

lemma for_each_child_cancels:
  assumes f: "\<And>c w r. f c w = Some r \<Longrightarrow> cancels w (world_of r)"
  shows "for_each_child f kxs w = Some r \<Longrightarrow> cancels w (world_of r)"
proof (induction kxs arbitrary: w)
  case Nil
  then show ?case by (auto simp: cancels_refl)
next
  case (Cons kx kxs)
  obtain key x where kx: "kx = (key, x)" by (cases kx)
  show ?case
  proof (cases x)
    case None
    with Cons.prems kx show ?thesis by (auto simp: cancels_refl)
  next
    case (Some c)
    show ?thesis
    proof (cases "f c w")
      case None
      with Cons.prems kx Some show ?thesis by simp
    next
      case fc: (Some r1)
      show ?thesis
      proof (cases r1)
        case (Returned w1)
        with fc Cons.prems kx Some have "for_each_child f kxs w1 = Some r" by simp
        from Cons.IH [OF this] have "cancels w1 (world_of r)" .
        moreover from f [OF fc] Returned have "cancels w w1" by simp
        ultimately show ?thesis using cancels_trans by blast
      next
        case (Threw e w1)
        with fc Cons.prems kx Some have "r = r1" by simp
        with f [OF fc] show ?thesis by simp
      qed
    qed
  qed
qed

lemma cancelRender_cancels: "cancelRender n v w = Some r \<Longrightarrow> cancels w (world_of r)"
proof (induction n arbitrary: v w r)
  case 0
  then show ?case by simp
next
  case (Suc n)
  let ?w1 = "set_render_state v RENDER_CANCELED w"
  let ?l = "for_each_child (cancelRender n) (for_in bifocals_names ?w1 v) ?w1"
  from Suc.prems obtain r1 where l: "?l = Some r1"
    by (cases ?l) (auto simp: Let_def)
  from for_each_child_cancels [of "cancelRender n", OF Suc.IH l]
  have c1: "cancels ?w1 (world_of r1)" by simp
  have c0: "cancels w ?w1" by (rule cancels_set_render_state)
  show ?case
  proof (cases r1)
    case (Returned w2)
    with Suc.prems l have r: "r = Returned (new_child_views v w2)" by (simp add: Let_def)
    from c1 Returned have "cancels ?w1 w2" by simp
    with c0 have "cancels w w2" by (rule cancels_trans)
    from this cancels_new_child_views have "cancels w (new_child_views v w2)"
      by (rule cancels_trans)
    with r show ?thesis by simp
  next
    case (Threw e w2)
    with Suc.prems l have "r = r1" by (simp add: Let_def)
    with c0 c1 show ?thesis using cancels_trans by blast
  qed
qed


section \<open>How the render state moves\<close>

lemma buildRenderer_effect:
  assumes "buildRenderer v w = Inr (r, w')"
  shows "views w' = views w" and "rendered w' = rendered w" and "ticks w' = ticks w"
    and "renderers w' = renderers w" and "r_view r = v"
    and "r_response r = response (views w v)" and "adapters w' = adapters w"
  using assms
  by (auto simp: buildRenderer_def Let_def split: sum.splits lookup.splits option.splits
      if_splits)

lemma buildRenderer_class:
  "(\<exists>r w'. buildRenderer v w = Inr (r, w')) \<longleftrightarrow>
     is_class (renderers w (to_key (content_type (views w v))))"
  by (cases "renderers w (to_key (content_type (views w v)))")
    (auto simp: buildRenderer_def getRenderer_def Let_def)











section \<open>Which template is rendered\<close>

lemma keeps_template_refl: "template (views w v) = a \<Longrightarrow> keeps_template v a w w"
  by (simp add: keeps_template_def)

lemma keeps_template_trans:
  "keeps_template v a w0 w1 \<Longrightarrow> keeps_template v a w1 w2 \<Longrightarrow> keeps_template v a w0 w2"
  unfolding keeps_template_def by fastforce

lemma keeps_template_same:
  "template (views w' v) = template (views w v) \<Longrightarrow> rendered w' = rendered w \<Longrightarrow>
     template (views w v) = a \<Longrightarrow> keeps_template v a w w'"
  by (simp add: keeps_template_def)

lemma render_unforced_keeps:
  assumes r: "render n u t False w = Some r" and a: "truthy a"
    and t: "template (views w v) = a"
  shows "keeps_template v a w (world_of r)"
proof (cases "render_state (views w u) = RENDER_CANCELED")
  case True
  with r t show ?thesis by (auto simp: keeps_template_refl)
next
  case nc: False
  let ?w1 = "set_render_state u RENDER_REQUESTED w"
  let ?w2 = "set_render_state u RENDER_STARTED ?w1"
  have t1: "template (views ?w1 v) = a" "rendered ?w1 = rendered w"
    using t by (auto simp: set_render_state_def upd_view_def)
  have t2: "template (views ?w2 v) = a" "rendered ?w2 = rendered w"
    using t by (auto simp: set_render_state_def upd_view_def)
  show ?thesis
  proof (cases "canRender u ?w1")
    case (Inl e)
    with r nc have "world_of r = ?w1" by (auto simp: Let_def)
    with t1 t show ?thesis by (simp add: keeps_template_def)
  next
    case (Inr b)
    show ?thesis
    proof (cases b)
      case False
      show ?thesis
      proof (cases "truthy (template (views ?w1 u))")
        case True
        with False Inr r nc have "world_of r = ?w1" by (auto simp: Let_def)
        with t1 t show ?thesis by (simp add: keeps_template_def)
      next
        case nt: False
        with False Inr r nc have w: "world_of r = set_template u t ?w1"
          by (auto simp: Let_def)
        from nt t1 a have "u \<noteq> v" by auto
        with w t show ?thesis
          by (simp add: keeps_template_def set_template_def set_render_state_def
              upd_view_def)
      qed
    next
      case True
      show ?thesis
      proof (cases "buildRenderer u ?w2")
        case (Inl e)
        with True Inr r nc have "world_of r = ?w2" by (auto simp: Let_def)
        with t2 t show ?thesis by (simp add: keeps_template_def)
      next
        case b: (Inr rw)
        obtain x w3 where rw: "rw = (x, w3)" by (cases rw)
        note e = buildRenderer_effect [OF b [unfolded rw]]
        let ?t = "if truthy (template (views ?w2 u)) then template (views ?w2 u) else t"
        from b rw True Inr r nc
        have w: "world_of r = renderer_render x (dir (views w3 u)) ?t w3"
          by (auto simp: Let_def)
        have "u = v \<Longrightarrow> ?t = a" using t2 a by simp
        with w e t2 show ?thesis
          by (auto simp: keeps_template_def renderer_render_def)
      qed
    qed
  qed
qed

lemma render_forced_keeps:
  assumes r: "render n u t True w = Some r" and a: "truthy a"
    and t: "template (views w v) = a" and ne: "u \<noteq> v"
  shows "keeps_template v a w (world_of r)"
proof -
  from r obtain r1 where c: "cancelRender n u w = Some r1"
    by (cases "cancelRender n u w") auto
  from cancelRender_cancels [OF c] have cs: "cancels w (world_of r1)" .
  show ?thesis
  proof (cases r1)
    case (Threw e w1)
    with c r have "r = r1" by simp
    then show ?thesis
      by (intro keeps_template_same)
        (simp_all add: cancels_view_fields [OF cs] cancels_fields [OF cs] t)
  next
    case (Returned w1)
    let ?w2 = "set_template u t (set_render_state u RENDER_REQUESTED w1)"
    from Returned c r have r': "render n u t False ?w2 = Some r" by simp
    from cs Returned have cs1: "cancels w w1" by simp
    have "template (views ?w2 v) = template (views w v)"
      using ne by (simp add: set_template_def set_render_state_def upd_view_def
          cancels_view_fields [OF cs1])
    moreover have "rendered ?w2 = rendered w"
      by (simp add: set_template_def set_render_state_def upd_view_def
          cancels_fields [OF cs1])
    ultimately have 1: "keeps_template v a w ?w2" using t by (rule keeps_template_same)
    from 1 have "template (views ?w2 v) = a" by (simp add: keeps_template_def)
    from render_unforced_keeps [OF r' a this] have "keeps_template v a ?w2 (world_of r)" .
    with 1 show ?thesis by (rule keeps_template_trans)
  qed
qed

lemma step_keeps:
  assumes s: "step n e w = Some r" and a: "truthy a"
    and t: "template (views w v) = a" and nf: "\<forall>t. e \<noteq> Render v t True"
  shows "keeps_template v a w (world_of r)"
proof (cases e)
  case (Render u t' force)
  show ?thesis
  proof (cases force)
    case True
    with Render nf have "u \<noteq> v" by auto
    moreover from Render True s have "render n u t' True w = Some r" by simp
    ultimately show ?thesis using a t render_forced_keeps by blast
  next
    case False
    with Render s have "render n u t' False w = Some r" by simp
    from render_unforced_keeps [OF this a t] show ?thesis .
  qed
next
  case (CancelRender u)
  with s have c: "cancelRender n u w = Some r" by simp
  from cancelRender_cancels [OF c] have cs: "cancels w (world_of r)" .
  show ?thesis
    by (rule keeps_template_same)
      (simp_all add: cancels_view_fields [OF cs] cancels_fields [OF cs] t)
next
  case (RendererEnd u)
  with s t show ?thesis
    by (auto simp: keeps_template_def renderer_end_callback_def set_render_state_def
        upd_view_def)
next
  case (RendererError u err)
  with s t show ?thesis
    by (auto simp: keeps_template_def renderer_error_callback_def call_error_handler_def
        set_render_state_def upd_view_def split: handler.splits)
next
  case (AdapterWrite u chunk)
  with s t show ?thesis by (auto simp: keeps_template_def adapter_write_def)
next
  case (AdapterEnd u)
  with s t show ?thesis
    by (auto simp: keeps_template_def adapter_end_def Let_def set_render_state_def
        set_data_def upd_view_def split: option.splits sum.splits bool.splits)
next
  case Tick
  show ?thesis
  proof (cases "ticks w")
    case Nil
    with Tick s t show ?thesis by (auto simp: run_tick_def keeps_template_def)
  next
    case (Cons c rest)
    show ?thesis
    proof (cases "parent (views w c)")
      case None
      with Cons Tick s t show ?thesis by (auto simp: run_tick_def keeps_template_def)
    next
      case (Some p)
      let ?w0 = "w\<lparr>ticks := rest\<rparr>"
      from Some Cons Tick s have r: "render 0 p JUndefined False ?w0 = Some r"
        by (simp add: run_tick_def)
      have 1: "keeps_template v a w ?w0" using t by (simp add: keeps_template_def)
      from t have "template (views ?w0 v) = a" by simp
      from render_unforced_keeps [OF r a this] 1 show ?thesis
        using keeps_template_trans by blast
    qed
  qed
qed

lemma run_keeps:
  "truthy a \<Longrightarrow> \<forall>t. Render v t True \<notin> set es \<Longrightarrow> run n es w = Some r \<Longrightarrow>
     template (views w v) = a \<Longrightarrow> keeps_template v a w (world_of r)"
proof (induction es arbitrary: w)
  case Nil
  then show ?case by (auto simp: keeps_template_refl)
next
  case (Cons e es)
  note a = Cons.prems(1)
  from Cons.prems(2) have nf1: "\<forall>t. e \<noteq> Render v t True"
    and nf2: "\<forall>t. Render v t True \<notin> set es" by auto
  from Cons.prems(3) obtain r1 where s: "step n e w = Some r1"
    by (auto split: option.splits)
  from step_keeps [OF s a Cons.prems(4) nf1] have k: "keeps_template v a w (world_of r1)" .
  show ?case
  proof (cases r1)
    case (Returned w1)
    with s Cons.prems(3) have r: "run n es w1 = Some r" by simp
    from k Returned have k1: "keeps_template v a w w1" by simp
    then have "template (views w1 v) = a" by (simp add: keeps_template_def)
    from Cons.IH [OF a nf2 r this] have "keeps_template v a w1 (world_of r)" .
    with k1 show ?thesis by (rule keeps_template_trans)
  next
    case (Threw err w1)
    with s Cons.prems(3) have "r = r1" by simp
    with k show ?thesis by simp
  qed
qed

lemma keeps_template_drop:
  assumes "keeps_template v a w0 w"
  shows "template (views w v) = a \<and>
         (\<forall>i \<in> set (drop (length (rendered w0)) (rendered w)).
             inv_view i = v \<longrightarrow> inv_template i = a)"
  using assms unfolding keeps_template_def by auto

text \<open>
  C5, as the code has it. A non-empty template that is set on a view wins over the
  template arguments of all later calls of \<^verbatim>\<open>render\<close> without \<^verbatim>\<open>force\<close>: as long as
  \<^verbatim>\<open>render\<close> is not called with \<^verbatim>\<open>force\<close> on the view, the template stays and every call of
  the view's renderer is made with it, whatever else is done to the tree and whether or
  not a call throws. And on a view that is not cancelled, that has no template and on
  which \<^verbatim>\<open>canRender()\<close> returns false once the state is \<^verbatim>\<open>RENDER_REQUESTED\<close>, a non-empty
  template passed to \<^verbatim>\<open>render\<close> without \<^verbatim>\<open>force\<close> is set in this way. (Where \<^verbatim>\<open>canRender()\<close>
  throws, as it does on a view that waits for a child created under the key
  \<^verbatim>\<open>__proto__\<close>, nothing is said.)
\<close>

theorem set_template_wins:
  assumes a: "truthy a" and nf: "\<forall>t. Render v t True \<notin> set es"
  shows "(template (views w v) = a \<longrightarrow>
            (\<forall>r. run n es w = Some r \<longrightarrow>
               template (views (world_of r) v) = a \<and>
               (\<forall>i \<in> set (drop (length (rendered w)) (rendered (world_of r))).
                   inv_view i = v \<longrightarrow> inv_template i = a))) \<and>
         (\<not> truthy (template (views w v)) \<and> render_state (views w v) \<noteq> RENDER_CANCELED \<and>
          canRender v (set_render_state v RENDER_REQUESTED w) = Inr False \<longrightarrow>
            (\<forall>r. run n (Render v a False # es) w = Some r \<longrightarrow>
               template (views (world_of r) v) = a \<and>
               (\<forall>i \<in> set (drop (length (rendered w)) (rendered (world_of r))).
                   inv_view i = v \<longrightarrow> inv_template i = a)))"
proof (intro conjI impI allI)
  fix r
  assume "template (views w v) = a" and "run n es w = Some r"
  from keeps_template_drop [OF run_keeps [OF a nf this(2) this(1)]]
  show "template (views (world_of r) v) = a"
    and "\<forall>i \<in> set (drop (length (rendered w)) (rendered (world_of r))).
                   inv_view i = v \<longrightarrow> inv_template i = a"
    by simp_all
next
  fix r
  assume h: "\<not> truthy (template (views w v)) \<and> render_state (views w v) \<noteq> RENDER_CANCELED \<and>
          canRender v (set_render_state v RENDER_REQUESTED w) = Inr False"
    and r: "run n (Render v a False # es) w = Some r"
  let ?w1 = "set_template v a (set_render_state v RENDER_REQUESTED w)"
  from h have s: "render n v a False w = Some (Returned ?w1)"
    by (simp add: Let_def set_render_state_def upd_view_def)
  with r have r1: "run n es ?w1 = Some r" by simp
  have t1: "template (views ?w1 v) = a"
    by (simp add: set_template_def set_render_state_def upd_view_def)
  have l: "rendered ?w1 = rendered w"
    by (simp add: set_template_def set_render_state_def upd_view_def)
  from keeps_template_drop [OF run_keeps [OF a nf r1 t1]] l
  show "template (views (world_of r) v) = a"
    and "\<forall>i \<in> set (drop (length (rendered w)) (rendered (world_of r))).
                   inv_view i = v \<longrightarrow> inv_template i = a"
    by simp_all
qed

text \<open>
  The header was created with a template and waits for its child. It is asked to render
  \<open>a\<close>, then \<open>b\<close>; then the child ends and the pending callback runs: the renderer is
  called with the template of the creation. And a root without a template that waits for
  a child created under the key \<^verbatim>\<open>__proto__\<close> is asked to render \<open>a\<close>: the call throws and
  no template is set.
\<close>

theorem preset_template_wins:
  "render_state (views tree_world 1) \<noteq> RENDER_CANCELED \<and>
   canRender 1 (set_render_state 1 RENDER_REQUESTED tree_world) = Inr False \<and>
   map (\<lambda>i. (inv_view i, inv_template i))
     (rendered (world_of (the (run 0 header_run tree_world)))) =
     [(1, JStr ''header.html'')] \<and>
   template (views proto_world 0) = JNull \<and>
   render_state (views proto_world 1) = RENDER_NOT_CALLED \<and>
   (case run 0 [Render 0 (JStr ''a'') False] proto_world of
      Some (Threw e w') \<Rightarrow> e = TypeError \<and> template (views w' 0) = JNull
    | r \<Rightarrow> False)"
  unfolding tree_world_def header_run_def proto_world_def by code_simp

text \<open>
  The root has no template and waits for its two children. It is asked to render \<open>a\<close>,
  then \<open>b\<close>; then the children end and the pending callback runs.
\<close>

theorem set_template_wins_witness:
  "truthy (JStr ''a'') \<and>
   \<not> truthy (template (views tree_world 0)) \<and>
   render_state (views tree_world 0) \<noteq> RENDER_CANCELED \<and>
   canRender 0 (set_render_state 0 RENDER_REQUESTED tree_world) = Inr False \<and>
   run 0 (Render 0 (JStr ''a'') False # root_run) tree_world =
     Some (the (run 0 (Render 0 (JStr ''a'') False # root_run) tree_world)) \<and>
   template (views (world_of (the (run 0 (Render 0 (JStr ''a'') False # root_run)
      tree_world))) 0) = JStr ''a'' \<and>
   map (\<lambda>i. (inv_view i, inv_template i))
     (rendered (world_of (the (run 0 (Render 0 (JStr ''a'') False # root_run)
        tree_world)))) = [(0, JStr ''a'')]"
proof -
  let ?es = "Render 0 (JStr ''a'') False # root_run"
  have a: "truthy (JStr ''a'')" by simp
  have nf: "\<forall>t. Render 0 t True \<notin> set root_run" by (simp add: root_run_def)
  have h: "\<not> truthy (template (views tree_world 0)) \<and>
      render_state (views tree_world 0) \<noteq> RENDER_CANCELED \<and>
      canRender 0 (set_render_state 0 RENDER_REQUESTED tree_world) = Inr False"
    unfolding tree_world_def by code_simp
  have "run 0 ?es tree_world \<noteq> None"
    unfolding tree_world_def root_run_def by code_simp
  then have r: "run 0 ?es tree_world = Some (the (run 0 ?es tree_world))" by simp
  have l: "map (\<lambda>i. (inv_view i, inv_template i))
     (rendered (world_of (the (run 0 ?es tree_world)))) = [(0, JStr ''a'')]"
    unfolding tree_world_def root_run_def by code_simp
  from set_template_wins [OF a nf, of tree_world 0] h r
  have "template (views (world_of (the (run 0 ?es tree_world))) 0) = JStr ''a''"
    by blast
  with a h r l show ?thesis by blast
qed

section \<open>A parent and its children\<close>


lemma plain_cong:
  "child_proto (views w' v) = child_proto (views w v) \<Longrightarrow>
   content_type (views w' v) = content_type (views w v) \<Longrightarrow> renderers w' = renderers w \<Longrightarrow>
     plain v w' = plain v w"
  by (simp add: plain_def)

















lemma render_calls_ticks [simp]: "render_calls p (w\<lparr>ticks := x\<rparr>) = render_calls p w"
  by (simp add: render_calls_def)

lemma all_complete_ticks [simp]: "all_complete cs (w\<lparr>ticks := x\<rparr>) = all_complete cs w"
  by (simp add: all_complete_def)

lemma plain_ticks [simp]: "plain v (w\<lparr>ticks := x\<rparr>) = plain v w"
  by (simp add: plain_def)

















section \<open>Cancelling a tree\<close>

lemma prunes_refl: "prunes w w"
  by (simp add: prunes_def cancels_refl)

lemma prunes_cancels: "prunes w w' \<Longrightarrow> cancels w w'"
  by (simp add: prunes_def)

lemma prunes_children:
  "prunes w w' \<Longrightarrow>
     child_views (views w' u) = child_views (views w u) \<or> child_views (views w' u) = []"
  by (simp add: prunes_def)

lemma prunes_proto:
  "prunes w w' \<Longrightarrow>
     child_proto (views w' u) = child_proto (views w u) \<or> child_proto (views w' u) = None"
  by (simp add: prunes_def)

lemma prunes_closed:
  "prunes w w' \<Longrightarrow> child_views (views w' u) \<noteq> child_views (views w u) \<Longrightarrow>
     c \<in> snd ` set (child_views (views w u)) \<Longrightarrow> pruned w' c"
  unfolding prunes_def by blast

lemma prunes_pruned: "prunes w w' \<Longrightarrow> pruned w u \<Longrightarrow> pruned w' u"
  using prunes_children [of w w' u] prunes_proto [of w w' u]
    cancels_state [OF prunes_cancels, of w w' u]
  by (auto simp: pruned_def)

lemma prunesI:
  assumes "cancels w w'"
    and "\<And>u. child_views (views w' u) = child_views (views w u) \<or>
           child_views (views w' u) = []"
    and "\<And>u. child_proto (views w' u) = child_proto (views w u) \<or>
           child_proto (views w' u) = None"
    and "\<And>u c. child_views (views w' u) \<noteq> child_views (views w u) \<Longrightarrow>
           c \<in> snd ` set (child_views (views w u)) \<Longrightarrow> pruned w' c"
  shows "prunes w w'"
  using assms unfolding prunes_def by blast

lemma prunes_trans:
  assumes a: "prunes w w1" and b: "prunes w1 w2"
  shows "prunes w w2"
proof (rule prunesI)
  from a b show "cancels w w2" using cancels_trans prunes_cancels by blast
next
  fix u
  from prunes_children [OF a, of u] prunes_children [OF b, of u]
  show "child_views (views w2 u) = child_views (views w u) \<or> child_views (views w2 u) = []"
    by auto
next
  fix u
  from prunes_proto [OF a, of u] prunes_proto [OF b, of u]
  show "child_proto (views w2 u) = child_proto (views w u) \<or>
        child_proto (views w2 u) = None"
    by auto
next
  fix u c
  assume ne: "child_views (views w2 u) \<noteq> child_views (views w u)"
    and c: "c \<in> snd ` set (child_views (views w u))"
  show "pruned w2 c"
  proof (cases "child_views (views w1 u) = child_views (views w u)")
    case True
    with ne have "child_views (views w2 u) \<noteq> child_views (views w1 u)" by simp
    from prunes_closed [OF b this] c True show ?thesis by simp
  next
    case False
    from prunes_closed [OF a False c] have "pruned w1 c" .
    with b show ?thesis by (rule prunes_pruned)
  qed
qed

lemma prunes_set_render_state: "prunes w (set_render_state v RENDER_CANCELED w)"
proof (rule prunesI)
  show "cancels w (set_render_state v RENDER_CANCELED w)" by (rule cancels_set_render_state)
qed (auto simp: set_render_state_def upd_view_def split: if_splits)

lemma prunes_new_child_views:
  assumes "\<forall>c \<in> snd ` set (child_views (views w v)). pruned w c"
  shows "prunes w (new_child_views v w)"
proof (rule prunesI)
  show "cancels w (new_child_views v w)" by (rule cancels_new_child_views)
next
  fix u
  show "child_views (views (new_child_views v w) u) = child_views (views w u) \<or>
        child_views (views (new_child_views v w) u) = []"
    by (simp add: new_child_views_def upd_view_def)
  show "child_proto (views (new_child_views v w) u) = child_proto (views w u) \<or>
        child_proto (views (new_child_views v w) u) = None"
    by (simp add: new_child_views_def upd_view_def)
next
  fix u c
  assume ne: "child_views (views (new_child_views v w) u) \<noteq> child_views (views w u)"
    and c: "c \<in> snd ` set (child_views (views w u))"
  from ne have u: "u = v" by (auto simp: new_child_views_def upd_view_def split: if_splits)
  with c assms have p: "pruned w c" by blast
  then show "pruned (new_child_views v w) c"
    by (auto simp: pruned_def new_child_views_def upd_view_def)
qed

lemma for_each_child_prunes:
  assumes f: "\<And>c w r. f c w = Some r \<Longrightarrow>
                prunes w (world_of r) \<and> (\<forall>w'. r = Returned w' \<longrightarrow> pruned w' c)"
  shows "for_each_child f kxs w = Some r \<Longrightarrow>
           prunes w (world_of r) \<and>
           (\<forall>w'. r = Returned w' \<longrightarrow> (\<forall>c. Some c \<in> snd ` set kxs \<longrightarrow> pruned w' c))"
proof (induction kxs arbitrary: w)
  case Nil
  then show ?case by (auto simp: prunes_refl)
next
  case (Cons kx kxs)
  obtain key x where kx: "kx = (key, x)" by (cases kx)
  show ?case
  proof (cases x)
    case None
    with Cons.prems kx show ?thesis by (auto simp: prunes_refl)
  next
    case (Some c)
    show ?thesis
    proof (cases "f c w")
      case None
      with Cons.prems kx Some show ?thesis by simp
    next
      case fc: (Some r1)
      from f [OF fc] have a: "prunes w (world_of r1)"
        and b: "\<forall>w'. r1 = Returned w' \<longrightarrow> pruned w' c" by simp_all
      show ?thesis
      proof (cases r1)
        case (Returned w1)
        with fc Cons.prems kx Some have l: "for_each_child f kxs w1 = Some r" by simp
        from Cons.IH [OF l] have c1: "prunes w1 (world_of r)"
          and d: "\<forall>w'. r = Returned w' \<longrightarrow> (\<forall>c. Some c \<in> snd ` set kxs \<longrightarrow> pruned w' c)"
          by simp_all
        from a Returned have a1: "prunes w w1" by simp
        from b Returned have b1: "pruned w1 c" by simp
        from a1 c1 have "prunes w (world_of r)" by (rule prunes_trans)
        moreover have "\<forall>w'. r = Returned w' \<longrightarrow>
            (\<forall>c'. Some c' \<in> snd ` set (kx # kxs) \<longrightarrow> pruned w' c')"
        proof (intro allI impI)
          fix w' c' assume r: "r = Returned w'" and m: "Some c' \<in> snd ` set (kx # kxs)"
          from m kx Some have "c' = c \<or> Some c' \<in> snd ` set kxs" by auto
          then show "pruned w' c'"
          proof
            assume "c' = c"
            with prunes_pruned [OF c1 b1] r show ?thesis by simp
          next
            assume "Some c' \<in> snd ` set kxs"
            with d r show ?thesis by blast
          qed
        qed
        ultimately show ?thesis by blast
      next
        case (Threw e w1)
        with fc Cons.prems kx Some have "r = r1" by simp
        with a Threw show ?thesis by simp
      qed
    qed
  qed
qed

lemma cancelRender_prunes:
  "cancelRender n v w = Some r \<Longrightarrow>
     prunes w (world_of r) \<and> (\<forall>w'. r = Returned w' \<longrightarrow> pruned w' v)"
proof (induction n arbitrary: v w r)
  case 0
  then show ?case by simp
next
  case (Suc n)
  let ?w1 = "set_render_state v RENDER_CANCELED w"
  let ?l = "for_each_child (cancelRender n) (for_in bifocals_names ?w1 v) ?w1"
  from Suc.prems obtain r1 where l: "?l = Some r1"
    by (cases ?l) (auto simp: Let_def)
  from for_each_child_prunes [of "cancelRender n", OF Suc.IH l]
  have c1: "prunes ?w1 (world_of r1)"
    and d: "\<forall>w'. r1 = Returned w' \<longrightarrow>
          (\<forall>c. Some c \<in> snd ` set (for_in bifocals_names ?w1 v) \<longrightarrow> pruned w' c)"
    by simp_all
  have c0: "prunes w ?w1" by (rule prunes_set_render_state)
  show ?case
  proof (cases r1)
    case (Threw e w2)
    with Suc.prems l have "r = r1" by (simp add: Let_def)
    with c0 c1 Threw show ?thesis using prunes_trans by auto
  next
    case (Returned w2)
    with Suc.prems l have r: "r = Returned (new_child_views v w2)" by (simp add: Let_def)
    from c1 Returned have c2: "prunes ?w1 w2" by simp
    have own: "\<forall>c \<in> snd ` set (child_views (views ?w1 v)). pruned w2 c"
    proof
      fix c assume "c \<in> snd ` set (child_views (views ?w1 v))"
      then obtain key where "(key, c) \<in> set (child_views (views ?w1 v))" by auto
      then have "(key, Some c) \<in> set (for_in bifocals_names ?w1 v)"
        by (force simp: for_in_def)
      then have "Some c \<in> snd ` set (for_in bifocals_names ?w1 v)" by force
      with d Returned show "pruned w2 c" by blast
    qed
    have 4: "\<forall>c \<in> snd ` set (child_views (views w2 v)). pruned w2 c"
      using prunes_children [OF c2, of v] own by auto
    then have 5: "prunes w2 (new_child_views v w2)" by (rule prunes_new_child_views)
    from c0 c2 have "prunes w w2" by (rule prunes_trans)
    then have 6: "prunes w (new_child_views v w2)" using 5 by (rule prunes_trans)
    have "render_state (views ?w1 v) = RENDER_CANCELED"
      by (simp add: set_render_state_def upd_view_def)
    with cancels_state [OF prunes_cancels [OF c2], of v]
    have "render_state (views w2 v) = RENDER_CANCELED" by auto
    then have "pruned (new_child_views v w2) v"
      by (simp add: pruned_def new_child_views_def upd_view_def)
    with 6 r show ?thesis by simp
  qed
qed

lemma prunes_descendants:
  assumes c: "prunes w w'" and p: "pruned w' v" and u: "u \<in> descendants w v"
  shows "pruned w' u"
  using u
proof (induction rule: descendants.induct)
  case (child c')
  then have "child_views (views w v) \<noteq> []" by auto
  with p have "child_views (views w' v) \<noteq> child_views (views w v)"
    by (simp add: pruned_def)
  from prunes_closed [OF c this child] show ?case .
next
  case (below u c')
  then have "child_views (views w u) \<noteq> []" by auto
  with below.IH have "child_views (views w' u) \<noteq> child_views (views w u)"
    by (simp add: pruned_def)
  from prunes_closed [OF c this below.hyps(2)] show ?case .
qed

lemma upd_view_same: "f (views w v) = views w v \<Longrightarrow> upd_view v f w = w"
  by (simp add: upd_view_def)

lemma cancelRender_pruned:
  assumes p: "pruned w v"
  shows "cancelRender (Suc n) v w = Some (Returned w)"
proof -
  from p have 1: "set_render_state v RENDER_CANCELED w = w"
    unfolding set_render_state_def by (intro upd_view_same) (simp add: pruned_def)
  from p have 2: "new_child_views v w = w"
    unfolding new_child_views_def by (intro upd_view_same) (simp add: pruned_def)
  from p have 3: "for_in bifocals_names w v = []" by (simp add: pruned_def for_in_def)
  show ?thesis by (simp add: 1 2 3)
qed

lemma rankedD:
  "ranked w \<Longrightarrow> c \<in> snd ` set (child_views (views w v)) \<Longrightarrow> v < c \<and> c < next_id w"
  unfolding ranked_def by blast

lemma ranked_proto: "ranked w \<Longrightarrow> child_proto (views w v) = None"
  unfolding ranked_def by blast

lemma prunes_ranked:
  assumes c: "prunes w w'" and r: "ranked w"
  shows "ranked w' \<and> next_id w' = next_id w"
proof -
  from cancels_fields(2) [OF prunes_cancels [OF c]] have n: "next_id w' = next_id w" .
  have "ranked w'"
    unfolding ranked_def
  proof (intro allI)
    fix v
    from prunes_proto [OF c, of v] ranked_proto [OF r, of v]
    have 1: "child_proto (views w' v) = None" by auto
    have 2: "\<forall>c' \<in> snd ` set (child_views (views w' v)). v < c' \<and> c' < next_id w'"
    proof
      fix c' assume m: "c' \<in> snd ` set (child_views (views w' v))"
      with prunes_children [OF c, of v] have "c' \<in> snd ` set (child_views (views w v))"
        by auto
      from rankedD [OF r this] n show "v < c' \<and> c' < next_id w'" by simp
    qed
    from 1 2 show "child_proto (views w' v) = None \<and>
        (\<forall>c' \<in> snd ` set (child_views (views w' v)). v < c' \<and> c' < next_id w')" ..
  qed
  with n show ?thesis by simp
qed

lemma for_each_child_returns:
  assumes f: "\<And>c w. c \<in> snd ` set kcs \<Longrightarrow> ranked w \<Longrightarrow> next_id w = N \<Longrightarrow>
                 \<exists>w'. f c w = Some (Returned w') \<and> prunes w w'"
  shows "ranked w \<Longrightarrow> next_id w = N \<Longrightarrow>
           \<exists>w'. for_each_child f (map (\<lambda>(key, c). (key, Some c)) kcs) w = Some (Returned w')"
  using f
proof (induction kcs arbitrary: w)
  case Nil
  then show ?case by simp
next
  case (Cons kc kcs)
  obtain key c where kc: "kc = (key, c)" by (cases kc)
  from Cons.prems(3) [of c w] Cons.prems(1,2) kc obtain w1 where
    1: "f c w = Some (Returned w1)" and 2: "prunes w w1" by auto
  from prunes_ranked [OF 2 Cons.prems(1)] Cons.prems(2)
  have r: "ranked w1" and n: "next_id w1 = N" by simp_all
  have "\<exists>w'. for_each_child f (map (\<lambda>(key, c). (key, Some c)) kcs) w1 = Some (Returned w')"
    by (rule Cons.IH [OF r n]) (use Cons.prems(3) in auto)
  with 1 kc show ?case by simp
qed

lemma cancelRender_returns:
  "ranked w \<Longrightarrow> next_id w - v < n \<Longrightarrow> \<exists>w'. cancelRender n v w = Some (Returned w')"
proof (induction n arbitrary: v w)
  case 0
  then show ?case by simp
next
  case (Suc n)
  let ?w1 = "set_render_state v RENDER_CANCELED w"
  have c1: "prunes w ?w1" by (rule prunes_set_render_state)
  from prunes_ranked [OF c1 Suc.prems(1)]
  have r1: "ranked ?w1" and n1: "next_id ?w1 = next_id w" by simp_all
  have ch: "child_views (views ?w1 v) = child_views (views w v)"
    by (simp add: set_render_state_def upd_view_def)
  have fi: "for_in bifocals_names ?w1 v =
      map (\<lambda>(key, c). (key, Some c)) (child_views (views ?w1 v))"
    by (rule for_in_plain) (rule ranked_proto [OF r1])
  have "\<exists>w2. for_each_child (cancelRender n)
          (map (\<lambda>(key, c). (key, Some c)) (child_views (views ?w1 v))) ?w1 =
        Some (Returned w2)"
  proof (rule for_each_child_returns [OF _ r1 n1])
    fix c w0
    assume c: "c \<in> snd ` set (child_views (views ?w1 v))"
      and r0: "ranked w0" and n0: "next_id w0 = next_id w"
    from c ch Suc.prems(1) have "v < c \<and> c < next_id w" by (simp add: rankedD)
    with Suc.prems(2) n0 have "next_id w0 - c < n" by arith
    from Suc.IH [OF r0 this] obtain w' where cr: "cancelRender n c w0 = Some (Returned w')"
      by blast
    from cancelRender_prunes [OF cr] cr
    show "\<exists>w'. cancelRender n c w0 = Some (Returned w') \<and> prunes w0 w'" by auto
  qed
  then show ?case by (auto simp: Let_def fi)
qed

lemma ranked_not_descendant:
  assumes "ranked w" and "u \<in> descendants w v"
  shows "v < u"
  using assms(2)
proof (induction rule: descendants.induct)
  case (child c)
  with assms(1) show ?case by (simp add: rankedD)
next
  case (below u c)
  with assms(1) have "u < c" by (simp add: rankedD)
  with below.IH show ?case by simp
qed

text \<open>
  On a store built by \<^verbatim>\<open>child\<close> with keys other than \<^verbatim>\<open>__proto__\<close>, with fuel for its
  depth, \<^verbatim>\<open>cancelRender()\<close> returns; the view is then \<^verbatim>\<open>RENDER_CANCELED\<close> and has no
  children, every view that was below it is \<^verbatim>\<open>RENDER_CANCELED\<close> and has no children, and
  a second call returns the very same store.
\<close>

lemma cancelRender_built:
  assumes "ranked w" and "next_id w < n"
  shows "\<exists>w'. cancelRender n this w = Some (Returned w') \<and>
           render_state (views w' this) = RENDER_CANCELED \<and>
           child_views (views w' this) = [] \<and>
           (\<forall>u \<in> descendants w this.
               render_state (views w' u) = RENDER_CANCELED \<and> child_views (views w' u) = []) \<and>
           cancelRender n this w' = Some (Returned w')"
proof -
  from assms(2) have "next_id w - this < n" by arith
  from cancelRender_returns [OF assms(1) this] obtain w' where
    r: "cancelRender n this w = Some (Returned w')" by blast
  from cancelRender_prunes [OF r] have c: "prunes w w'" and p: "pruned w' this"
    by simp_all
  from assms(2) obtain n' where n: "n = Suc n'" by (cases n) auto
  have "cancelRender n this w' = Some (Returned w')"
    unfolding n using p by (rule cancelRender_pruned)
  moreover have "\<forall>u \<in> descendants w this.
               render_state (views w' u) = RENDER_CANCELED \<and> child_views (views w' u) = []"
    using prunes_descendants [OF c p] by (simp add: pruned_def)
  ultimately show ?thesis using r p by (simp add: pruned_def)
qed

text \<open>
  On such a store, with a renderer class for the view's content type,
  \<^verbatim>\<open>render(template, true)\<close> returns whatever the view's state, template and children
  were; afterwards every view that was below it is \<^verbatim>\<open>RENDER_CANCELED\<close> without children,
  the view has no children, its template is the one supplied, its state is
  \<^verbatim>\<open>RENDER_STARTED\<close>, and its renderer has been called once more, with the supplied
  template.
\<close>

lemma forced_render_built:
  assumes r: "ranked w" and n: "next_id w < n"
    and reg: "is_class (renderers w (to_key (content_type (views w this))))"
  shows "\<exists>w'. render n this tmpl True w = Some (Returned w') \<and>
           render_state (views w' this) = RENDER_STARTED \<and>
           child_views (views w' this) = [] \<and>
           template (views w' this) = tmpl \<and>
           (\<forall>u \<in> descendants w this.
               render_state (views w' u) = RENDER_CANCELED \<and> child_views (views w' u) = []) \<and>
           rendered w' = rendered w @
             [\<lparr>inv_view = this, inv_response = response (views w this),
               inv_dir = dir (views w this), inv_template = tmpl\<rparr>]"
proof -
  from n have "next_id w - this < n" by arith
  from cancelRender_returns [OF r this] obtain w1 where
    c: "cancelRender n this w = Some (Returned w1)" by blast
  from cancelRender_prunes [OF c] have ps: "prunes w w1" and p: "pruned w1 this"
    by simp_all
  note cs = prunes_cancels [OF ps]
  let ?w2 = "set_template this tmpl (set_render_state this RENDER_REQUESTED w1)"
  let ?w3 = "set_render_state this RENDER_REQUESTED ?w2"
  let ?w4 = "set_render_state this RENDER_STARTED ?w3"
  from p have ch: "child_views (views w1 this) = []" "child_proto (views w1 this) = None"
    by (simp_all add: pruned_def)
  note f = cancels_fields [OF cs] cancels_view_fields [OF cs]
  have "child_proto (views ?w3 this) = None"
    using ch by (simp add: set_render_state_def set_template_def upd_view_def)
  from canRender_plain [OF this] ch have can: "canRender this ?w3 = Inr True"
    by (simp add: set_render_state_def set_template_def upd_view_def)
  from reg have "is_class (renderers ?w4 (to_key (content_type (views ?w4 this))))"
    by (simp add: set_render_state_def set_template_def upd_view_def f)
  with buildRenderer_class [of this ?w4] obtain x w5 where
    b: "buildRenderer this ?w4 = Inr (x, w5)" by blast
  note e = buildRenderer_effect [OF b]
  let ?w' = "renderer_render x (dir (views w5 this)) tmpl w5"
  have "render n this tmpl False ?w2 = Some (Returned ?w')"
    using can b by (simp add: Let_def set_render_state_def set_template_def upd_view_def)
  with c have 1: "render n this tmpl True w = Some (Returned ?w')" by simp
  have v: "views ?w' = views ?w4" by (simp add: renderer_render_def e)
  have 2: "render_state (views ?w' this) = RENDER_STARTED"
    "child_views (views ?w' this) = []" "template (views ?w' this) = tmpl"
    unfolding v by (simp_all add: set_render_state_def set_template_def upd_view_def ch)
  have 3: "rendered ?w' = rendered w @
             [\<lparr>inv_view = this, inv_response = response (views w this),
               inv_dir = dir (views w this), inv_template = tmpl\<rparr>]"
    by (simp add: renderer_render_def e)
      (simp add: set_render_state_def set_template_def upd_view_def f)
  have 4: "\<forall>u \<in> descendants w this.
      render_state (views ?w' u) = RENDER_CANCELED \<and> child_views (views ?w' u) = []"
  proof
    fix u assume u: "u \<in> descendants w this"
    from ranked_not_descendant [OF r u] have "u \<noteq> this" by simp
    moreover from prunes_descendants [OF ps p u] have "pruned w1 u" .
    ultimately show
      "render_state (views ?w' u) = RENDER_CANCELED \<and> child_views (views ?w' u) = []"
      unfolding v by (simp add: set_render_state_def set_template_def upd_view_def pruned_def)
  qed
  from 1 2 3 4 show ?thesis by blast
qed

section \<open>Stores built by \<^verbatim>\<open>child\<close>\<close>

lemma assign_values: "snd ` set (assign k x kvs) \<subseteq> insert x (snd ` set kvs)"
  by (induction kvs) (fastforce split: if_splits)+

lemma assign_value:
  "c \<in> snd ` set (assign k x kvs) \<Longrightarrow> c = x \<or> c \<in> snd ` set kvs"
  using assign_values [of k x kvs] by auto

lemma child_next_id: "next_id (snd (child this key tmpl w)) = Suc (next_id w)"
  by (simp add: child_def Let_def upd_view_def set_error_def set_template_def)

lemma child_child_views:
  "this \<noteq> next_id w \<Longrightarrow> key \<noteq> ''__proto__'' \<Longrightarrow>
     child_views (views (snd (child this key tmpl w)) u) =
       (if u = this then assign key (next_id w) (child_views (views w this))
        else if u = next_id w then [] else child_views (views w u)) \<and>
     child_proto (views (snd (child this key tmpl w)) u) =
       (if u = next_id w then None else child_proto (views w u))"
  by (simp add: child_def Let_def upd_view_def set_error_def set_template_def Bifocals_def)

lemma ranked_child:
  assumes r: "ranked w" and t: "this < next_id w" and k: "key \<noteq> ''__proto__''"
  shows "ranked (snd (child this key tmpl w))"
  unfolding ranked_def
proof (intro allI)
  fix v
  let ?w' = "snd (child this key tmpl w)"
  from t have ne: "this \<noteq> next_id w" by simp
  from child_child_views [OF ne k, of tmpl v]
  have cv: "child_views (views ?w' v) =
       (if v = this then assign key (next_id w) (child_views (views w this))
        else if v = next_id w then [] else child_views (views w v))"
    and cp: "child_proto (views ?w' v) =
       (if v = next_id w then None else child_proto (views w v))" by simp_all
  from cp ranked_proto [OF r, of v] have 1: "child_proto (views ?w' v) = None" by simp
  have n: "next_id ?w' = Suc (next_id w)" by (rule child_next_id)
  have 2: "\<forall>c \<in> snd ` set (child_views (views ?w' v)). v < c \<and> c < next_id ?w'"
  proof
    fix c
    assume c: "c \<in> snd ` set (child_views (views ?w' v))"
    show "v < c \<and> c < next_id ?w'"
    proof (cases "v = this")
      case True
      with c cv have "c \<in> snd ` set (assign key (next_id w) (child_views (views w this)))"
        by simp
      then have "c = next_id w \<or> c \<in> snd ` set (child_views (views w this))"
        by (rule assign_value)
      then show ?thesis
      proof
        assume "c = next_id w"
        with t True n show ?thesis by simp
      next
        assume "c \<in> snd ` set (child_views (views w this))"
        from rankedD [OF r this] True n show ?thesis by simp
      qed
    next
      case False
      show ?thesis
      proof (cases "v = next_id w")
        case True
        with False c cv show ?thesis by simp
      next
        case nn: False
        with False c cv have "c \<in> snd ` set (child_views (views w v))" by simp
        from rankedD [OF r this] n show ?thesis by simp
      qed
    qed
  qed
  from 1 2 show "child_proto (views ?w' v) = None \<and>
      (\<forall>c \<in> snd ` set (child_views (views ?w' v)). v < c \<and> c < next_id ?w')" ..
qed

lemma ranked_example_world: "ranked example_world"
  by (simp add: ranked_def example_world_def Bifocals_def)

lemma ranked_tree_world: "ranked tree_world \<and> next_id tree_world = 4"
proof -
  let ?w1 = "snd (child 0 ''header'' (JStr ''header.html'') example_world)"
  let ?w2 = "snd (child 1 ''nav'' JUndefined ?w1)"
  have n0: "next_id example_world = 1" by (simp add: example_world_def)
  have n1: "next_id ?w1 = 2" by (simp add: child_next_id n0)
  have n2: "next_id ?w2 = 3" by (simp add: child_next_id n0)
  have r1: "ranked ?w1"
    by (rule ranked_child [OF ranked_example_world]) (use n0 in simp_all)
  have r2: "ranked ?w2" by (rule ranked_child [OF r1]) (use n1 in simp_all)
  have "ranked tree_world" unfolding tree_world_def
    by (rule ranked_child [OF r2]) (use n2 in simp_all)
  moreover have "next_id tree_world = 4" unfolding tree_world_def
    by (simp add: child_next_id n0)
  ultimately show ?thesis by simp
qed

text \<open>
  When the parent of a view is \<^verbatim>\<open>RENDER_CANCELED\<close> and the \<^verbatim>\<open>end()\<close> of the view's fake
  response is called, with a key other than \<^verbatim>\<open>__proto__\<close>: the call returns, the view is
  \<^verbatim>\<open>RENDER_COMPLETE\<close>, the buffer is in the parent's data under the view's key, the
  parent's \<^verbatim>\<open>canRender()\<close> returns false, and nothing was given to \<^verbatim>\<open>process.nextTick\<close>
  and no renderer called.
\<close>

lemma end_after_cancel:
  assumes "parent (views w c) = Some p" and "render_state (views w p) = RENDER_CANCELED"
    and "akey (adapters w c) \<noteq> ''__proto__''" and "c \<noteq> p"
  shows "\<exists>w'. adapter_end c w = Returned w' \<and>
           render_state (views w' c) = RENDER_COMPLETE \<and>
           data (views w' p) (akey (adapters w c)) = Some (JStr (buffer (adapters w c))) \<and>
           canRender p w' = Inr False \<and> ticks w' = ticks w \<and> rendered w' = rendered w"
  using assms
  by (auto simp: adapter_end_def canRender_def set_render_state_def set_data_def
      upd_view_def Let_def)

section \<open>The key \<^verbatim>\<open>__proto__\<close>\<close>

text \<open>
  C2. The root has one child, created under the key \<^verbatim>\<open>__proto__\<close>. The child's fake
  response is ended, so the child is \<^verbatim>\<open>RENDER_COMPLETE\<close>, and the root is asked to render:
  its state is \<^verbatim>\<open>RENDER_REQUESTED\<close>, its only child is complete, and \<^verbatim>\<open>canRender()\<close>
  throws a \<^verbatim>\<open>TypeError\<close> instead of returning true; the root stays requested and its
  renderer is not called.
\<close>

theorem canRender_proto_throws:
  "child_views (views proto_world 0) = [] \<and>
   child_proto (views proto_world 0) = Some 1 \<and>
   parent (views proto_world 1) = Some 0 \<and>
   (case run 0 [AdapterEnd 1, Render 0 (JStr ''index'') False] proto_world of
      Some (Threw e w') \<Rightarrow>
        e = TypeError \<and>
        render_state (views w' 0) = RENDER_REQUESTED \<and>
        render_state (views w' 1) = RENDER_COMPLETE \<and>
        canRender 0 w' = Inl TypeError \<and>
        render_calls 0 w' = 0
    | r \<Rightarrow> False)"
  unfolding proto_world_def by code_simp

text \<open>
  C4. The root has one child, created under the key \<^verbatim>\<open>__proto__\<close>, and is forced to
  render: \<^verbatim>\<open>cancelRender\<close> sets the root \<^verbatim>\<open>RENDER_CANCELED\<close> and throws a \<^verbatim>\<open>TypeError\<close> in
  its loop, so the child is not cancelled, the mapping is not replaced, the template is
  not set, the root does not start and its renderer is not called.
\<close>

theorem forced_render_proto_throws:
  "child_proto (views proto_world 0) = Some 1 \<and>
   parent (views proto_world 1) = Some 0 \<and>
   (case render 3 0 (JStr ''error.html'') True proto_world of
      Some (Threw e w') \<Rightarrow>
        e = TypeError \<and>
        render_state (views w' 0) = RENDER_CANCELED \<and>
        render_state (views w' 1) = RENDER_NOT_CALLED \<and>
        child_proto (views w' 0) = Some 1 \<and>
        template (views w' 0) = JNull \<and>
        render_calls 0 w' = 0
    | r \<Rightarrow> False)"
  unfolding proto_world_def by code_simp

text \<open>
  C6. The root has one child, created under the key \<^verbatim>\<open>__proto__\<close>, and is cancelled:
  \<^verbatim>\<open>cancelRender\<close> sets the root \<^verbatim>\<open>RENDER_CANCELED\<close> and throws a \<^verbatim>\<open>TypeError\<close> in its loop;
  the child is not cancelled and the root keeps its mapping, with the child as prototype.
  A second call does the same.
\<close>

theorem cancelRender_proto_throws:
  "child_proto (views proto_world 0) = Some 1 \<and>
   parent (views proto_world 1) = Some 0 \<and>
   (case cancelRender 3 0 proto_world of
      Some (Threw e w') \<Rightarrow>
        e = TypeError \<and>
        render_state (views w' 0) = RENDER_CANCELED \<and>
        render_state (views w' 1) = RENDER_NOT_CALLED \<and>
        child_proto (views w' 0) = Some 1 \<and>
        (case cancelRender 3 0 w' of
           Some (Threw e' w'') \<Rightarrow> e' = TypeError \<and> child_proto (views w'' 0) = Some 1
         | r \<Rightarrow> False)
    | r \<Rightarrow> False)"
  unfolding proto_world_def by code_simp


section \<open>Signals before a handler is registered\<close>

text \<open>
  First revision: a signal that comes before its handler is kept; registering the
  handler gives the call to \<^verbatim>\<open>process.nextTick\<close>, and the scheduler makes it.
\<close>

lemma pending_error_deferred:
  assumes "own_error r = None" and "queue r = []"
  shows "calls (fst (renderer_error fn (signal_error err r))) = calls r"
    and "queue (fst (renderer_error fn (signal_error err r))) = [(fn, Some err)]"
    and "calls (next_tick (fst (renderer_error fn (signal_error err r)))) =
           calls r @ [(fn, Some err)]"
    and "snd (renderer_error fn (signal_error err r)) = ReturnsThis"
  using assms
  by (simp_all add: signal_error_def renderer_defaultError_def renderer_error_def
      next_tick_def)

lemma pending_end_deferred:
  assumes "own_end r = None" and "queue r = []"
  shows "calls (fst (renderer_end fn (signal_end r))) = calls r"
    and "queue (fst (renderer_end fn (signal_end r))) = [(fn, None)]"
    and "calls (next_tick (fst (renderer_end fn (signal_end r)))) = calls r @ [(fn, None)]"
    and "snd (renderer_end fn (signal_end r)) = ReturnsThis"
  using assms
  by (simp_all add: signal_end_def renderer_defaultEnd_def renderer_end_def next_tick_def)

text \<open>
  C8, second revision. On a new renderer the error signal, then \<^verbatim>\<open>error(fn)\<close>: the
  handler has been called when \<^verbatim>\<open>error(fn)\<close> returns, nothing was given to
  \<^verbatim>\<open>process.nextTick\<close>, and the call returns \<^verbatim>\<open>undefined\<close>; likewise for the end signal
  and \<^verbatim>\<open>end(fn)\<close>.
\<close>

theorem rev1_handler_called_at_once:
  "calls (fst (renderer_error_rev1 7 (signal_error (JStr ''boom'') Renderer))) =
     [(7, Some (JStr ''boom''))] \<and>
   queue (fst (renderer_error_rev1 7 (signal_error (JStr ''boom'') Renderer))) = [] \<and>
   snd (renderer_error_rev1 7 (signal_error (JStr ''boom'') Renderer)) = ReturnsUndefined \<and>
   calls (fst (renderer_end_rev1 8 (signal_end Renderer))) = [(8, None)] \<and>
   queue (fst (renderer_end_rev1 8 (signal_end Renderer))) = [] \<and>
   snd (renderer_end_rev1 8 (signal_end Renderer)) = ReturnsUndefined \<and>
   calls (fst (renderer_error 7 (signal_error (JStr ''boom'') Renderer))) = [] \<and>
   queue (fst (renderer_error 7 (signal_error (JStr ''boom'') Renderer))) =
     [(7, Some (JStr ''boom''))] \<and>
   snd (renderer_error 7 (signal_error (JStr ''boom'') Renderer)) = ReturnsThis"
  by (simp add: signal_error_def signal_end_def renderer_defaultError_def
      renderer_defaultEnd_def renderer_error_rev1_def renderer_end_rev1_def
      renderer_error_def Renderer_def)

section \<open>The two revisions\<close>

text \<open>
  C9. \<^verbatim>\<open>statusNotFound\<close> with a template, called on a view two levels below the root of
  the same tree: the first revision renders the template on the root and leaves the
  response open, the second renders nothing and ends the response.
\<close>

theorem revisions_differ:
  "map (\<lambda>v. child_views (views view_tree_world v)) [0, 1, 2, 3] =
     map (\<lambda>v. child_views (views tree_world v)) [0, 1, 2, 3] \<and>
   map inv_template
     (rendered (world_of (the (statusNotFound 5 2 (JStr ''404.html'') tree_world)))) =
     [JStr ''404.html''] \<and>
   sinks (world_of (the (statusNotFound 5 2 (JStr ''404.html'') tree_world))) 0 =
     [AssignProp ''statusCode'' 404] \<and>
   render_state (views (world_of (the (statusNotFound 5 2 (JStr ''404.html'') tree_world))) 0) =
     RENDER_STARTED \<and>
   map inv_template
     (rendered (world_of (the (view_notFound 5 2 (JStr ''404.html'') view_tree_world)))) =
     [] \<and>
   sinks (world_of (the (view_notFound 5 2 (JStr ''404.html'') view_tree_world))) 0 =
     [AssignProp ''statusCode'' 404, SinkEnd] \<and>
   render_state
     (views (world_of (the (view_notFound 5 2 (JStr ''404.html'') view_tree_world))) 0) =
     RENDER_CANCELED"
  unfolding tree_world_def view_tree_world_def by code_simp

end
